theory Spec2Isabelle
  imports Complex_Main "HOL-Library.Word"
begin

section \<open>JavaScript strings and JSON text\<close>

text \<open>
  A JavaScript string is a sequence of 16-bit code units. The values kept in the
  offline queue are plain data, so they are modelled as JSON trees. A number is carried
  as its decimal numeral: the conversion between numerals and IEEE doubles is floating
  point and is not part of this development. The members of an object are listed in
  property order.
\<close>

type_synonym jschar = "16 word"
type_synonym jsstring = "jschar list"

definition str :: "string \<Rightarrow> jsstring" where
  "str s = map of_char s"

datatype json =
    JNull
  | JBool bool
  | JNum jsstring
  | JStr jsstring
  | JArr "json list"
  | JObj "(jsstring \<times> json) list"

subsection \<open>\<open>JSON.stringify\<close>\<close>

definition hex_digit :: "nat \<Rightarrow> jschar" where
  "hex_digit d = (if d < 10 then of_nat (48 + d) else of_nat (87 + d))"

definition UnicodeEscape :: "jschar \<Rightarrow> jsstring" where
  "UnicodeEscape c =
     [0x5C, 0x75,
      hex_digit (unat c div 4096), hex_digit (unat c div 256 mod 16),
      hex_digit (unat c div 16 mod 16), hex_digit (unat c mod 16)]"

definition is_high_surrogate :: "jschar \<Rightarrow> bool" where
  "is_high_surrogate c = (0xD800 \<le> c \<and> c \<le> 0xDBFF)"

definition is_low_surrogate :: "jschar \<Rightarrow> bool" where
  "is_low_surrogate c = (0xDC00 \<le> c \<and> c \<le> 0xDFFF)"

text \<open>
  The characters of a quoted string: the two-character escapes for backspace, tab, line
  feed, form feed, carriage return, the quotation mark and the backslash; a
  \<open>\u\<close> escape for the other control characters and for a surrogate that is not part
  of a pair; every other code unit as it is.
\<close>

fun QuoteChars :: "jsstring \<Rightarrow> jsstring" where
  "QuoteChars [] = []"
| "QuoteChars (c # cs) =
     (if c = 0x08 then [0x5C, 0x62] @ QuoteChars cs
      else if c = 0x09 then [0x5C, 0x74] @ QuoteChars cs
      else if c = 0x0A then [0x5C, 0x6E] @ QuoteChars cs
      else if c = 0x0C then [0x5C, 0x66] @ QuoteChars cs
      else if c = 0x0D then [0x5C, 0x72] @ QuoteChars cs
      else if c = 0x22 then [0x5C, 0x22] @ QuoteChars cs
      else if c = 0x5C then [0x5C, 0x5C] @ QuoteChars cs
      else if c < 0x20 then UnicodeEscape c @ QuoteChars cs
      else if is_high_surrogate c then
        (case cs of
           [] \<Rightarrow> UnicodeEscape c
         | d # ds \<Rightarrow>
             if is_low_surrogate d then c # d # QuoteChars ds
             else UnicodeEscape c @ QuoteChars cs)
      else if is_low_surrogate c then UnicodeEscape c @ QuoteChars cs
      else c # QuoteChars cs)"

definition QuoteJSONString :: "jsstring \<Rightarrow> jsstring" where
  "QuoteJSONString s = 0x22 # QuoteChars s @ [0x22]"

primrec JSON_stringify :: "json \<Rightarrow> jsstring"
  and stringify_elements :: "json list \<Rightarrow> jsstring"
  and stringify_members :: "(jsstring \<times> json) list \<Rightarrow> jsstring"
  and stringify_member :: "jsstring \<times> json \<Rightarrow> jsstring"
where
  "JSON_stringify JNull = str ''null''"
| "JSON_stringify (JBool b) = (if b then str ''true'' else str ''false'')"
| "JSON_stringify (JNum n) = n"
| "JSON_stringify (JStr s) = QuoteJSONString s"
| "JSON_stringify (JArr xs) = 0x5B # stringify_elements xs @ [0x5D]"
| "JSON_stringify (JObj ms) = 0x7B # stringify_members ms @ [0x7D]"
| "stringify_elements [] = []"
| "stringify_elements (x # xs) =
     (if xs = [] then JSON_stringify x
      else JSON_stringify x @ 0x2C # stringify_elements xs)"
| "stringify_members [] = []"
| "stringify_members (m # ms) =
     (if ms = [] then stringify_member m
      else stringify_member m @ 0x2C # stringify_members ms)"
| "stringify_member (k, v) = QuoteJSONString k @ 0x3A # JSON_stringify v"


subsection \<open>\<open>JSON.parse\<close>\<close>

text \<open>
  The grammar of JSON text: white space, the three literals, numbers, strings with
  their escapes, arrays and objects. Each parser returns what it read and the rest of
  the text, or \<open>None\<close> where \<open>JSON.parse\<close> throws a \<open>SyntaxError\<close>. The tests
  on lengths in \<open>parse_elements\<close> and \<open>parse_members\<close> are there for the
  termination proof; they always succeed (\<open>parse_elements_unguarded\<close>,
  \<open>parse_members_unguarded\<close>).
\<close>

definition is_json_ws :: "jschar \<Rightarrow> bool" where
  "is_json_ws c = (c = 0x20 \<or> c = 0x09 \<or> c = 0x0A \<or> c = 0x0D)"

definition skip_ws :: "jsstring \<Rightarrow> jsstring" where
  "skip_ws s = dropWhile is_json_ws s"

definition is_digit :: "jschar \<Rightarrow> bool" where
  "is_digit c = (0x30 \<le> c \<and> c \<le> 0x39)"

definition hex_value :: "jschar \<Rightarrow> nat option" where
  "hex_value c =
     (if 0x30 \<le> c \<and> c \<le> 0x39 then Some (unat c - 48)
      else if 0x61 \<le> c \<and> c \<le> 0x66 then Some (unat c - 87)
      else if 0x41 \<le> c \<and> c \<le> 0x46 then Some (unat c - 55)
      else None)"

definition unescape4 :: "jschar \<Rightarrow> jschar \<Rightarrow> jschar \<Rightarrow> jschar \<Rightarrow> jschar option" where
  "unescape4 h1 h2 h3 h4 =
     (case hex_value h1 of
        None \<Rightarrow> None
      | Some a \<Rightarrow>
          (case hex_value h2 of
             None \<Rightarrow> None
           | Some b \<Rightarrow>
               (case hex_value h3 of
                  None \<Rightarrow> None
                | Some c \<Rightarrow>
                    (case hex_value h4 of
                       None \<Rightarrow> None
                     | Some d \<Rightarrow> Some (of_nat (((a * 16 + b) * 16 + c) * 16 + d))))))"

definition unescape :: "jschar \<Rightarrow> jschar option" where
  "unescape e =
     (if e = 0x22 then Some 0x22
      else if e = 0x5C then Some 0x5C
      else if e = 0x2F then Some 0x2F
      else if e = 0x62 then Some 0x08
      else if e = 0x66 then Some 0x0C
      else if e = 0x6E then Some 0x0A
      else if e = 0x72 then Some 0x0D
      else if e = 0x74 then Some 0x09
      else None)"

fun parse_chars :: "jsstring \<Rightarrow> (jsstring \<times> jsstring) option" where
  "parse_chars [] = None"
| "parse_chars (c # cs) =
     (if c = 0x22 then Some ([], cs)
      else if c = 0x5C then
        (case cs of
           [] \<Rightarrow> None
         | e # r \<Rightarrow>
             if e = 0x75 then
               (case r of
                  h1 # h2 # h3 # h4 # r' \<Rightarrow>
                    (case unescape4 h1 h2 h3 h4 of
                       None \<Rightarrow> None
                     | Some u \<Rightarrow>
                         (case parse_chars r' of
                            None \<Rightarrow> None
                          | Some (s, rest) \<Rightarrow> Some (u # s, rest)))
                | _ \<Rightarrow> None)
             else
               (case unescape e of
                  None \<Rightarrow> None
                | Some u \<Rightarrow>
                    (case parse_chars r of
                       None \<Rightarrow> None
                     | Some (s, rest) \<Rightarrow> Some (u # s, rest))))
      else if c < 0x20 then None
      else
        (case parse_chars cs of
           None \<Rightarrow> None
         | Some (s, rest) \<Rightarrow> Some (c # s, rest)))"

definition scan_int :: "jsstring \<Rightarrow> (jsstring \<times> jsstring) option" where
  "scan_int s =
     (case s of
        [] \<Rightarrow> None
      | d # r \<Rightarrow>
          if d = 0x30 then Some ([d], r)
          else if is_digit d then Some (d # takeWhile is_digit r, dropWhile is_digit r)
          else None)"

definition scan_frac :: "jsstring \<Rightarrow> (jsstring \<times> jsstring) option" where
  "scan_frac s =
     (case s of
        [] \<Rightarrow> Some ([], s)
      | d # r \<Rightarrow>
          if d = 0x2E then
            (if takeWhile is_digit r = [] then None
             else Some (d # takeWhile is_digit r, dropWhile is_digit r))
          else Some ([], s))"

definition scan_sign :: "jsstring \<Rightarrow> jsstring \<times> jsstring" where
  "scan_sign s =
     (case s of
        [] \<Rightarrow> ([], s)
      | x # r \<Rightarrow> if x = 0x2B \<or> x = 0x2D then ([x], r) else ([], s))"

definition scan_exp :: "jsstring \<Rightarrow> (jsstring \<times> jsstring) option" where
  "scan_exp s =
     (case s of
        [] \<Rightarrow> Some ([], s)
      | e # r \<Rightarrow>
          if e = 0x65 \<or> e = 0x45 then
            (case scan_sign r of
               (sg, r1) \<Rightarrow>
                 if takeWhile is_digit r1 = [] then None
                 else Some (e # sg @ takeWhile is_digit r1, dropWhile is_digit r1))
          else Some ([], s))"

definition scan_number :: "jsstring \<Rightarrow> (jsstring \<times> jsstring) option" where
  "scan_number s =
     (case (case s of [] \<Rightarrow> ([], s) | c # r \<Rightarrow> if c = 0x2D then ([c], r) else ([], s)) of
        (neg, s1) \<Rightarrow>
          (case scan_int s1 of
             None \<Rightarrow> None
           | Some (i, s2) \<Rightarrow>
               (case scan_frac s2 of
                  None \<Rightarrow> None
                | Some (f, s3) \<Rightarrow>
                    (case scan_exp s3 of
                       None \<Rightarrow> None
                     | Some (e, s4) \<Rightarrow> Some (neg @ i @ f @ e, s4)))))"

definition match_literal :: "jsstring \<Rightarrow> jsstring \<Rightarrow> jsstring option" where
  "match_literal lit s = (if take (length lit) s = lit then Some (drop (length lit) s) else None)"

text \<open>
  The properties of an object. A key that is an array index (the decimal numeral of a
  number below \<open>2^32 - 1\<close>, without leading zeros) comes before every other key, the
  indices in ascending order; the other keys come in the order of their creation.
  Defining a key that the object has replaces its value where it stands.
\<close>

definition array_index :: "jsstring \<Rightarrow> int option" where
  "array_index k =
     (if k \<noteq> [] \<and> list_all is_digit k \<and> (hd k = 0x30 \<longrightarrow> length k = 1)
         \<and> foldl (\<lambda>a d. 10 * a + (uint d - 48)) 0 k < 4294967295
      then Some (foldl (\<lambda>a d. 10 * a + (uint d - 48)) 0 k)
      else None)"

fun insert_property :: "jsstring \<times> json \<Rightarrow> (jsstring \<times> json) list \<Rightarrow> (jsstring \<times> json) list" where
  "insert_property m [] = [m]"
| "insert_property m (p # ps) =
     (case array_index (fst m) of
        None \<Rightarrow> p # insert_property m ps
      | Some n \<Rightarrow>
          (case array_index (fst p) of
             None \<Rightarrow> m # p # ps
           | Some n' \<Rightarrow> if n < n' then m # p # ps else p # insert_property m ps))"

definition define_property :: "(jsstring \<times> json) list \<Rightarrow> jsstring \<times> json \<Rightarrow> (jsstring \<times> json) list" where
  "define_property ps m =
     (if fst m \<in> fst ` set ps then map (\<lambda>p. if fst p = fst m then m else p) ps
      else insert_property m ps)"

definition object_of :: "(jsstring \<times> json) list \<Rightarrow> json" where
  "object_of ms = JObj (foldl define_property [] ms)"

function parse_value :: "jsstring \<Rightarrow> (json \<times> jsstring) option"
  and parse_elements :: "jsstring \<Rightarrow> (json list \<times> jsstring) option"
  and parse_members :: "jsstring \<Rightarrow> ((jsstring \<times> json) list \<times> jsstring) option"
where
  "parse_value s =
     (case skip_ws s of
        [] \<Rightarrow> None
      | c # cs \<Rightarrow>
          if c = 0x5B then
            (case skip_ws cs of
               [] \<Rightarrow> None
             | d # ds \<Rightarrow>
                 if d = 0x5D then Some (JArr [], ds)
                 else (case parse_elements cs of
                         None \<Rightarrow> None
                       | Some (xs, r) \<Rightarrow> Some (JArr xs, r)))
          else if c = 0x7B then
            (case skip_ws cs of
               [] \<Rightarrow> None
             | d # ds \<Rightarrow>
                 if d = 0x7D then Some (JObj [], ds)
                 else (case parse_members cs of
                         None \<Rightarrow> None
                       | Some (ms, r) \<Rightarrow> Some (object_of ms, r)))
          else if c = 0x22 then
            (case parse_chars cs of
               None \<Rightarrow> None
             | Some (t, r) \<Rightarrow> Some (JStr t, r))
          else if c = 0x2D \<or> is_digit c then
            (case scan_number (c # cs) of
               None \<Rightarrow> None
             | Some (n, r) \<Rightarrow> Some (JNum n, r))
          else if c = 0x6E then
            (case match_literal (str ''null'') (c # cs) of
               None \<Rightarrow> None
             | Some r \<Rightarrow> Some (JNull, r))
          else if c = 0x74 then
            (case match_literal (str ''true'') (c # cs) of
               None \<Rightarrow> None
             | Some r \<Rightarrow> Some (JBool True, r))
          else if c = 0x66 then
            (case match_literal (str ''false'') (c # cs) of
               None \<Rightarrow> None
             | Some r \<Rightarrow> Some (JBool False, r))
          else None)"
| "parse_elements s =
     (case parse_value s of
        None \<Rightarrow> None
      | Some (v, r) \<Rightarrow>
          (case skip_ws r of
             [] \<Rightarrow> None
           | c # cs \<Rightarrow>
               if c = 0x5D then Some ([v], cs)
               else if c = 0x2C \<and> length cs < length s then
                 (case parse_elements cs of
                    None \<Rightarrow> None
                  | Some (vs, r') \<Rightarrow> Some (v # vs, r'))
               else None))"
| "parse_members s =
     (case skip_ws s of
        [] \<Rightarrow> None
      | q # cs \<Rightarrow>
          if q = 0x22 then
            (case parse_chars cs of
               None \<Rightarrow> None
             | Some (k, r) \<Rightarrow>
                 (case skip_ws r of
                    [] \<Rightarrow> None
                  | c # vs \<Rightarrow>
                      if c = 0x3A \<and> length vs < length s then
                        (case parse_value vs of
                           None \<Rightarrow> None
                         | Some (v, r1) \<Rightarrow>
                             (case skip_ws r1 of
                                [] \<Rightarrow> None
                              | e # es \<Rightarrow>
                                  if e = 0x7D then Some ([(k, v)], es)
                                  else if e = 0x2C \<and> length es < length s then
                                    (case parse_members es of
                                       None \<Rightarrow> None
                                     | Some (ms, r') \<Rightarrow> Some ((k, v) # ms, r'))
                                  else None))
                      else None))
          else None)"
  by pat_completeness auto

termination
proof (relation "measures [\<lambda>x. case x of Inl s \<Rightarrow> length s | Inr (Inl s) \<Rightarrow> length s | Inr (Inr s) \<Rightarrow> length s,
                          \<lambda>x. case x of Inl s \<Rightarrow> 0 | Inr (Inl s) \<Rightarrow> Suc 0 | Inr (Inr s) \<Rightarrow> Suc 0]",
       goal_cases)
  case 1
  show ?case by simp
next
  case (2 s c cs d ds)
  have "length (skip_ws s) \<le> length s" by (simp add: skip_ws_def length_dropWhile_le)
  with 2 show ?case by simp
next
  case (3 s c cs d ds)
  have "length (skip_ws s) \<le> length s" by (simp add: skip_ws_def length_dropWhile_le)
  with 3 show ?case by simp
next
  case 4
  then show ?case by simp
next
  case 5
  then show ?case by simp
next
  case 6
  then show ?case by simp
next
  case 7
  then show ?case by simp
qed

declare parse_value.simps [simp del] parse_elements.simps [simp del] parse_members.simps [simp del]

text \<open>
  The whole text must be one value, with nothing but white space around it. The errors
  of the model are the \<open>SyntaxError\<close> of \<open>JSON.parse\<close> and the
  \<open>QuotaExceededError\<close> of \<open>localStorage.setItem\<close>.
\<close>

datatype error = SyntaxError | QuotaExceededError

definition JSON_parse :: "jsstring \<Rightarrow> error + json" where
  "JSON_parse text =
     (case parse_value text of
        None \<Rightarrow> Inl SyntaxError
      | Some (v, r) \<Rightarrow> if skip_ws r = [] then Inr v else Inl SyntaxError)"

subsection \<open>Values that JSON text can carry\<close>

text \<open>
  A value is well formed when each number in it is a numeral of the JSON grammar and
  the members of each object stand in property order, so that defining them one after
  the other gives the list itself. The receipts of the specification are such values:
  their numbers are finite and their keys are names.
\<close>

primrec well_formed :: "json \<Rightarrow> bool"
  and well_formed_elements :: "json list \<Rightarrow> bool"
  and well_formed_members :: "(jsstring \<times> json) list \<Rightarrow> bool"
  and well_formed_member :: "jsstring \<times> json \<Rightarrow> bool"
where
  "well_formed JNull = True"
| "well_formed (JBool b) = True"
| "well_formed (JNum n) = (scan_number n = Some (n, []))"
| "well_formed (JStr s) = True"
| "well_formed (JArr xs) = well_formed_elements xs"
| "well_formed (JObj ms) = (foldl define_property [] ms = ms \<and> well_formed_members ms)"
| "well_formed_elements [] = True"
| "well_formed_elements (x # xs) = (well_formed x \<and> well_formed_elements xs)"
| "well_formed_members [] = True"
| "well_formed_members (m # ms) = (well_formed_member m \<and> well_formed_members ms)"
| "well_formed_member (k, v) = well_formed v"

text \<open>What may follow a numeral: the end of the text, or a character that cannot continue it.\<close>

definition ends_number :: "jsstring \<Rightarrow> bool" where
  "ends_number rest =
     (case rest of
        [] \<Rightarrow> True
      | c # r \<Rightarrow> \<not> is_digit c \<and> c \<noteq> 0x2E \<and> c \<noteq> 0x65 \<and> c \<noteq> 0x45 \<and> c \<noteq> 0x2B \<and> c \<noteq> 0x2D)"


section \<open>The offline manager (static/js/offline.js)\<close>

text \<open>
  An entry of \<open>pendingReceipts\<close> is an object: it has an identity (its address) and a
  content. The test \<open>r !== receipt\<close> of the source compares identities.
\<close>

datatype jsobject = Object (address: nat) (content: json)

definition strict_neq :: "jsobject \<Rightarrow> jsobject \<Rightarrow> bool" where
  "strict_neq r receipt = (address r \<noteq> address receipt)"

text \<open>
  The state the class reads and writes: its two fields, the browser's
  \<open>localStorage\<close>, whether \<open>document.body\<close> carries the class \<open>offline\<close>, the number of
  \<open>offline-indicator\<close> elements appended to the body, the number of
  \<open>console.error\<close> lines, and the bodies POSTed to \<open>/create-receipt\<close>, oldest first.
  \<open>sync_calls\<close> counts the entries into \<open>syncPendingReceipts\<close>; it is bookkeeping of
  the model and no operation reads it.
\<close>

record state =
  isOnline :: bool
  pendingReceipts :: "jsobject list"
  localStorage :: "string \<rightharpoonup> jsstring"
  body_offline :: bool
  offline_indicators :: nat
  console_errors :: nat
  requests :: "jsstring list"
  sync_calls :: nat

definition serialize :: "jsobject list \<Rightarrow> jsstring" where
  "serialize q = JSON_stringify (JArr (map content q))"

text \<open>
  \<open>localStorage.setItem\<close> stores the value, or throws a \<open>QuotaExceededError\<close> and
  stores nothing when the storage has no room for it. Whether a write is accepted is
  decided by the browser; it is a parameter of the model, as the outcome of a request
  is.
\<close>

datatype write_result = Written | QuotaExceeded

definition setItem ::
  "write_result \<Rightarrow> string \<Rightarrow> jsstring \<Rightarrow> (string \<rightharpoonup> jsstring) \<Rightarrow> error + (string \<rightharpoonup> jsstring)" where
  "setItem written key val storage =
     (case written of
        Written \<Rightarrow> Inr (storage(key \<mapsto> val))
      | QuotaExceeded \<Rightarrow> Inl QuotaExceededError)"

text \<open>
  \<open>localStorage.setItem('pendingReceipts', JSON.stringify(this.pendingReceipts))\<close> in
  the pass of \<open>syncPendingReceipts\<close>. There the write follows a removal: where the
  stored text is the serialization of the queue, the new text is not longer than the
  text it replaces (lemma \<open>sync_step_write_fits\<close>), and the write is accepted.
\<close>

definition save :: "state \<Rightarrow> state" where
  "save s = s\<lparr>localStorage := (localStorage s)(''pendingReceipts'' \<mapsto> serialize (pendingReceipts s))\<rparr>"

text \<open>
  \<open>JSON.parse(localStorage.getItem('pendingReceipts') || '[]')\<close>: a missing key
  gives \<open>null\<close> and an empty text is falsy, and both are replaced by \<open>'[]'\<close>.
\<close>

definition load :: "(string \<rightharpoonup> jsstring) \<Rightarrow> error + json" where
  "load storage =
     JSON_parse
       (case storage ''pendingReceipts'' of
          None \<Rightarrow> str ''[]''
        | Some text \<Rightarrow> if text = [] then str ''[]'' else text)"

definition showOfflineNotification :: "state \<Rightarrow> state" where
  "showOfflineNotification s = s\<lparr>offline_indicators := Suc (offline_indicators s)\<rparr>"

text \<open>
  \<open>storeReceiptOffline\<close> has no \<open>try\<close>: when the write is refused, the exception
  leaves the method after the \<open>push\<close> and before \<open>showOfflineNotification\<close>. The
  result is the state when the method returns, or the exception with the state it
  leaves behind.
\<close>

definition storeReceiptOffline :: "write_result \<Rightarrow> jsobject \<Rightarrow> state \<Rightarrow> (error \<times> state) + state" where
  "storeReceiptOffline written receiptData s =
     (let s1 = s\<lparr>pendingReceipts := pendingReceipts s @ [receiptData]\<rparr> in
      case setItem written ''pendingReceipts'' (serialize (pendingReceipts s1)) (localStorage s1) of
        Inl e \<Rightarrow> Inl (e, s1)
      | Inr storage \<Rightarrow> Inr (showOfflineNotification (s1\<lparr>localStorage := storage\<rparr>)))"

text \<open>The state after a call, whether it returned or threw.\<close>

fun state_after :: "(error \<times> state) + state \<Rightarrow> state" where
  "state_after (Inl (e, s)) = s"
| "state_after (Inr s) = s"

text \<open>The state after a call of \<open>storeReceiptOffline\<close> whose write is accepted.\<close>

abbreviation enqueued :: "jsobject \<Rightarrow> state \<Rightarrow> state" where
  "enqueued r s \<equiv> state_after (storeReceiptOffline Written r s)"

text \<open>
  The outcome of one \<open>fetch\<close>: the promise rejects, or it resolves to a response with a
  status; \<open>response.ok\<close> holds for the statuses 200 to 299.
\<close>

datatype fetch_result = Rejected | Response nat

fun response_ok :: "fetch_result \<Rightarrow> bool" where
  "response_ok Rejected = False"
| "response_ok (Response status) = (200 \<le> status \<and> status \<le> 299)"

text \<open>The body of the loop of \<open>syncPendingReceipts\<close>, for one entry and the outcome of its request.\<close>

definition sync_step :: "fetch_result \<Rightarrow> jsobject \<Rightarrow> state \<Rightarrow> state" where
  "sync_step outcome receipt s =
     (let s1 = s\<lparr>requests := requests s @ [JSON_stringify (content receipt)]\<rparr> in
      case outcome of
        Rejected \<Rightarrow> s1\<lparr>console_errors := Suc (console_errors s1)\<rparr>
      | Response status \<Rightarrow>
          if response_ok outcome then
            save (s1\<lparr>pendingReceipts := filter (\<lambda>r. strict_neq r receipt) (pendingReceipts s1)\<rparr>)
          else s1)"

text \<open>
  The loop runs over the array that \<open>this.pendingReceipts\<close> held when it started:
  \<open>filter\<close> builds a new array and leaves that one as it was. \<open>net i\<close> is the outcome of
  the \<open>i\<close>-th request of the pass. A pass is taken as a whole: no other handler runs
  while it waits for a response.
\<close>

fun sync_loop :: "(nat \<Rightarrow> fetch_result) \<Rightarrow> nat \<Rightarrow> jsobject list \<Rightarrow> state \<Rightarrow> state" where
  "sync_loop net i [] s = s"
| "sync_loop net i (receipt # rest) s = sync_loop net (Suc i) rest (sync_step (net i) receipt s)"

definition syncPendingReceipts :: "(nat \<Rightarrow> fetch_result) \<Rightarrow> state \<Rightarrow> state" where
  "syncPendingReceipts net s =
     sync_loop net 0 (pendingReceipts s) (s\<lparr>sync_calls := Suc (sync_calls s)\<rparr>)"

definition handleOnline :: "(nat \<Rightarrow> fetch_result) \<Rightarrow> state \<Rightarrow> state" where
  "handleOnline net s =
     (syncPendingReceipts net (s\<lparr>isOnline := True\<rparr>))\<lparr>body_offline := False\<rparr>"

definition handleOffline :: "state \<Rightarrow> state" where
  "handleOffline s =
     showOfflineNotification (s\<lparr>isOnline := False, body_offline := True\<rparr>)"

text \<open>
  The two listeners that \<open>init\<close> registers on \<open>window\<close>. An \<open>online\<close> event is fired
  at each transition from offline to online; it carries the outcomes of the requests
  made while it is handled.
\<close>

datatype event = Online "nat \<Rightarrow> fetch_result" | Offline

fun dispatch :: "event \<Rightarrow> state \<Rightarrow> state" where
  "dispatch (Online net) s = handleOnline net s"
| "dispatch Offline s = handleOffline s"

fun is_online_event :: "event \<Rightarrow> bool" where
  "is_online_event (Online net) = True"
| "is_online_event Offline = False"

fun run :: "event list \<Rightarrow> state \<Rightarrow> state" where
  "run [] s = s"
| "run (e # es) s = run es (dispatch e s)"


text \<open>
  The states at the boundaries of the loop: before the first entry and after each entry.
\<close>

fun sync_states :: "(nat \<Rightarrow> fetch_result) \<Rightarrow> nat \<Rightarrow> jsobject list \<Rightarrow> state \<Rightarrow> state list" where
  "sync_states net i [] s = [s]"
| "sync_states net i (receipt # rest) s = s # sync_states net (Suc i) rest (sync_step (net i) receipt s)"

text \<open>
  The boundary states of one call of \<open>syncPendingReceipts\<close>; the last of them is the
  state in which the call leaves off.
\<close>

abbreviation pass_states :: "(nat \<Rightarrow> fetch_result) \<Rightarrow> state \<Rightarrow> state list" where
  "pass_states net s \<equiv>
     sync_states net 0 (pendingReceipts s) (s\<lparr>sync_calls := Suc (sync_calls s)\<rparr>)"

text \<open>
  What the specification expects of a pass, in its own words: the entries whose request
  succeeded, and the entries whose request failed, each in the order of the queue.
\<close>

fun acknowledged :: "(nat \<Rightarrow> fetch_result) \<Rightarrow> nat \<Rightarrow> jsobject list \<Rightarrow> jsobject list" where
  "acknowledged net i [] = []"
| "acknowledged net i (r # rs) =
     (if response_ok (net i) then r # acknowledged net (Suc i) rs
      else acknowledged net (Suc i) rs)"

fun unacknowledged :: "(nat \<Rightarrow> fetch_result) \<Rightarrow> nat \<Rightarrow> jsobject list \<Rightarrow> jsobject list" where
  "unacknowledged net i [] = []"
| "unacknowledged net i (r # rs) =
     (if response_ok (net i) then unacknowledged net (Suc i) rs
      else r # unacknowledged net (Suc i) rs)"

text \<open>The stored text is the serialization of the queue in memory.\<close>

definition persisted_in_sync :: "state \<Rightarrow> bool" where
  "persisted_in_sync s = (localStorage s ''pendingReceipts'' = Some (serialize (pendingReceipts s)))"


section \<open>The live dashboard (class \<open>LiveDashboard\<close>, src/unnamed/part_000)\<close>

text \<open>
  The child nodes of the \<open>liveActivity\<close> container, first child first. \<open>children\<close>
  lists the child elements only; \<open>firstChild\<close> and \<open>lastChild\<close> are nodes of any
  kind (a text node of white space, a comment). The container is taken to exist and
  the receipt to carry a \<open>total_amount\<close>, so that the new element can be built.
\<close>

datatype 'e node = Element 'e | NonElement

fun children :: "'e node list \<Rightarrow> 'e list" where
  "children [] = []"
| "children (Element e # ns) = e # children ns"
| "children (NonElement # ns) = children ns"

definition addLiveActivity :: "'e \<Rightarrow> 'e node list \<Rightarrow> 'e node list" where
  "addLiveActivity activityItem childNodes =
     (let inserted = Element activityItem # childNodes in
      if length (children inserted) > 10 then butlast inserted else inserted)"


section \<open>The receipt form (static/js/create_receipt.js)\<close>

text \<open>
  A JavaScript number, as far as the validation looks at it: \<open>NaN\<close>, an infinity, or
  a finite value. \<open>parseFloat\<close> is floating point; it is a parameter of the model, and
  the properties hold for every function in its place.
\<close>

datatype number = NaN | NegInfinity | Finite rat | PosInfinity

fun isNaN :: "number \<Rightarrow> bool" where
  "isNaN NaN = True"
| "isNaN n = False"

text \<open>\<open>n <= 0\<close> and \<open>n < 0\<close>; both are false for \<open>NaN\<close>.\<close>

fun le_zero :: "number \<Rightarrow> bool" where
  "le_zero NaN = False"
| "le_zero NegInfinity = True"
| "le_zero (Finite r) = (r \<le> 0)"
| "le_zero PosInfinity = False"

fun lt_zero :: "number \<Rightarrow> bool" where
  "lt_zero NaN = False"
| "lt_zero NegInfinity = True"
| "lt_zero (Finite r) = (r < 0)"
| "lt_zero PosInfinity = False"

text \<open>\<open>String.prototype.trim\<close>: white space and line terminators are removed at both ends.\<close>

definition is_white_space :: "jschar \<Rightarrow> bool" where
  "is_white_space c =
     (c = 0x09 \<or> c = 0x0A \<or> c = 0x0B \<or> c = 0x0C \<or> c = 0x0D \<or> c = 0x20 \<or> c = 0xA0
      \<or> c = 0x1680 \<or> (0x2000 \<le> c \<and> c \<le> 0x200A) \<or> c = 0x2028 \<or> c = 0x2029
      \<or> c = 0x202F \<or> c = 0x205F \<or> c = 0x3000 \<or> c = 0xFEFF)"

definition trim :: "jsstring \<Rightarrow> jsstring" where
  "trim s = rev (dropWhile is_white_space (rev (dropWhile is_white_space s)))"

text \<open>
  An item row of the form: the values of its three inputs and the \<open>style.borderColor\<close>
  of each.
\<close>

record item_row =
  item_name :: jsstring
  item_quantity :: jsstring
  item_price :: jsstring
  name_borderColor :: jsstring
  quantity_borderColor :: jsstring
  price_borderColor :: jsstring

record item =
  name :: jsstring
  quantity :: number
  price :: number

record receiptData =
  customer_name :: jsstring
  customer_pin :: jsstring
  payment_method :: jsstring
  items :: "item list"

text \<open>
  What the \<open>try\<close> block of \<open>generateReceipt\<close> meets after the request is sent: an
  exception with its message (the request rejects, the body of the response is not
  JSON, or \<open>showReceipt\<close> throws on a result that lacks a field); a result whose
  \<open>success\<close> is false, with its \<open>error\<close>; or a result whose \<open>success\<close> is true, of
  which the model keeps the \<open>receipt_id\<close>.
\<close>

datatype submit_result = Failed jsstring | Refused jsstring | Created jsstring

text \<open>
  The page: the item rows in document order, the three fields of the customer, the
  messages shown with \<open>alert\<close>, the button that generates the receipt, the receipts
  whose JSON text was POSTed to \<open>/create-receipt\<close>, whether the modal is displayed,
  the receipt id kept on the save button, and the offline manager of the page with the
  browser state it works on.
\<close>

record page =
  item_rows :: "item_row list"
  customerName :: jsstring
  customerPIN :: jsstring
  paymentMethod :: jsstring
  alerts :: "jsstring list"
  button_innerHTML :: jsstring
  button_disabled :: bool
  posted :: "receiptData list"
  modal_displayed :: bool
  saved_receiptId :: "jsstring option"
  offlineManager :: state

definition row_invalid :: "(jsstring \<Rightarrow> number) \<Rightarrow> item_row \<Rightarrow> bool" where
  "row_invalid parseFloat row =
     (let name = trim (item_name row);
          quantity = parseFloat (item_quantity row);
          price = parseFloat (item_price row)
      in name = [] \<or> isNaN quantity \<or> le_zero quantity \<or> isNaN price \<or> lt_zero price)"

text \<open>The body of the \<open>forEach\<close> of \<open>validateForm\<close>, for one row.\<close>

definition validate_row ::
  "(jsstring \<Rightarrow> number) \<Rightarrow> item_row \<Rightarrow> bool \<Rightarrow> item list \<Rightarrow> bool \<times> item list \<times> item_row" where
  "validate_row parseFloat row valid its =
     (let name = trim (item_name row);
          quantity = parseFloat (item_quantity row);
          price = parseFloat (item_price row)
      in if name = [] \<or> isNaN quantity \<or> le_zero quantity \<or> isNaN price \<or> lt_zero price then
           (let row1 = (if name = [] then row\<lparr>name_borderColor := str ''red''\<rparr> else row);
                row2 = (if isNaN quantity \<or> le_zero quantity
                        then row1\<lparr>quantity_borderColor := str ''red''\<rparr> else row1);
                row3 = (if isNaN price \<or> lt_zero price
                        then row2\<lparr>price_borderColor := str ''red''\<rparr> else row2)
            in (False, its, row3))
         else
           (valid,
            its @ [\<lparr>name = name, quantity = quantity, price = price\<rparr>],
            row\<lparr>name_borderColor := [], quantity_borderColor := [], price_borderColor := []\<rparr>))"

fun validate_rows ::
  "(jsstring \<Rightarrow> number) \<Rightarrow> item_row list \<Rightarrow> bool \<Rightarrow> item list \<Rightarrow> bool \<times> item list \<times> item_row list" where
  "validate_rows parseFloat [] valid its = (valid, its, [])"
| "validate_rows parseFloat (row # rows) valid its =
     (case validate_row parseFloat row valid its of
        (valid1, its1, row1) \<Rightarrow>
          (case validate_rows parseFloat rows valid1 its1 of
             (valid2, its2, rows2) \<Rightarrow> (valid2, its2, row1 # rows2)))"

definition validateForm ::
  "(jsstring \<Rightarrow> number) \<Rightarrow> item_row list \<Rightarrow> bool \<times> item list \<times> item_row list" where
  "validateForm parseFloat rows = validate_rows parseFloat rows True []"

definition showReceipt :: "jsstring \<Rightarrow> page \<Rightarrow> page" where
  "showReceipt receipt_id p = p\<lparr>modal_displayed := True, saved_receiptId := Some receipt_id\<rparr>"

definition alert :: "jsstring \<Rightarrow> page \<Rightarrow> page" where
  "alert message p = p\<lparr>alerts := alerts p @ [message]\<rparr>"

definition build_receiptData :: "page \<Rightarrow> item list \<Rightarrow> receiptData" where
  "build_receiptData p its =
     \<lparr>customer_name = (if customerName p = [] then str ''Walk-in Customer'' else customerName p),
      customer_pin = customerPIN p,
      payment_method = paymentMethod p,
      items = its\<rparr>"

definition generateReceipt :: "(jsstring \<Rightarrow> number) \<Rightarrow> submit_result \<Rightarrow> page \<Rightarrow> page" where
  "generateReceipt parseFloat outcome p =
     (case validateForm parseFloat (item_rows p) of
        (valid, its, rows1) \<Rightarrow>
          (let p1 = p\<lparr>item_rows := rows1\<rparr> in
           if \<not> valid \<or> length its = 0 then
             alert (str ''Please fill in all item fields correctly. Product name, quantity (>0), and price (''
                    @ [0x2265] @ str ''0) are required.'') p1
           else
             (let receiptData = build_receiptData p1 its;
                  p2 = p1\<lparr>button_innerHTML := str ''<i class=\"fas fa-spinner fa-spin\"></i> Generating...'',
                          button_disabled := True\<rparr>;
                  p3 = p2\<lparr>posted := posted p2 @ [receiptData]\<rparr>;
                  p4 = (case outcome of
                          Created receipt_id \<Rightarrow> showReceipt receipt_id p3
                        | Refused error \<Rightarrow> alert (str ''Error generating receipt: '' @ error) p3
                        | Failed message \<Rightarrow> alert (str ''Error generating receipt: '' @ message) p3)
              in p4\<lparr>button_innerHTML := str ''Generate ETR Receipt'', button_disabled := False\<rparr>)))"

text \<open>
  The second copy of the form script (src/unnamed/part_000) validates inside
  \<open>generateReceipt\<close>: it marks no field, its message is shorter, and it leaves the
  button as it is.
\<close>

fun collect_items ::
  "(jsstring \<Rightarrow> number) \<Rightarrow> item_row list \<Rightarrow> bool \<Rightarrow> item list \<Rightarrow> bool \<times> item list" where
  "collect_items parseFloat [] valid its = (valid, its)"
| "collect_items parseFloat (row # rows) valid its =
     (let name = trim (item_name row);
          quantity = parseFloat (item_quantity row);
          price = parseFloat (item_price row)
      in if name = [] \<or> isNaN quantity \<or> le_zero quantity \<or> isNaN price \<or> lt_zero price
         then collect_items parseFloat rows False its
         else collect_items parseFloat rows valid
                (its @ [\<lparr>name = name, quantity = quantity, price = price\<rparr>]))"

definition generateReceipt_part_000 :: "(jsstring \<Rightarrow> number) \<Rightarrow> submit_result \<Rightarrow> page \<Rightarrow> page" where
  "generateReceipt_part_000 parseFloat outcome p =
     (case collect_items parseFloat (item_rows p) True [] of
        (valid, its) \<Rightarrow>
          if \<not> valid \<or> length its = 0 then
            alert (str ''Please fill in all item fields correctly.'') p
          else
            (let receiptData = build_receiptData p its;
                 p3 = p\<lparr>posted := posted p @ [receiptData]\<rparr>
             in case outcome of
                  Created receipt_id \<Rightarrow> showReceipt receipt_id p3
                | Refused error \<Rightarrow> alert (str ''Error generating receipt: '' @ error) p3
                | Failed message \<Rightarrow> alert (str ''Error generating receipt: '' @ message) p3))"

text \<open>The item that a row yields, and the input values of a row.\<close>

definition item_of :: "(jsstring \<Rightarrow> number) \<Rightarrow> item_row \<Rightarrow> item" where
  "item_of parseFloat row =
     \<lparr>name = trim (item_name row), quantity = parseFloat (item_quantity row),
      price = parseFloat (item_price row)\<rparr>"

definition row_values :: "item_row \<Rightarrow> jsstring \<times> jsstring \<times> jsstring" where
  "row_values row = (item_name row, item_quantity row, item_price row)"

text \<open>
  The condition of the specification for a request, in its own words: every row has a
  name that is not empty once trimmed, a quantity that is a number above zero and a
  price that is a number not below zero, and there is at least one row.
\<close>

definition form_accepted :: "(jsstring \<Rightarrow> number) \<Rightarrow> item_row list \<Rightarrow> bool" where
  "form_accepted parseFloat rows =
     ((\<forall>row\<in>set rows.
         trim (item_name row) \<noteq> []
         \<and> \<not> isNaN (parseFloat (item_quantity row)) \<and> \<not> le_zero (parseFloat (item_quantity row))
         \<and> \<not> isNaN (parseFloat (item_price row)) \<and> \<not> lt_zero (parseFloat (item_price row)))
      \<and> rows \<noteq> [])"

subsection \<open>Sample data for the offline manager\<close>

text \<open>
  A manager with nothing queued and nothing stored, three receipts \<open>A\<close>, \<open>B\<close> and
  \<open>C\<close> at different addresses, for the scenarios of the specification, and the content
  of a receipt with all its fields.
\<close>

abbreviation fresh :: state where
  "fresh \<equiv> \<lparr>isOnline = True, pendingReceipts = [], localStorage = Map.empty,
     body_offline = False, offline_indicators = 0, console_errors = 0, requests = [],
     sync_calls = 0\<rparr>"

abbreviation receipt_A :: jsobject where
  "receipt_A \<equiv> Object 101 (JObj [(str ''customer_name'', JStr (str ''Ann''))])"

abbreviation receipt_B :: jsobject where
  "receipt_B \<equiv> Object 102 (JObj [(str ''customer_name'', JStr (str ''Bob''))])"

abbreviation receipt_C :: jsobject where
  "receipt_C \<equiv> Object 103 (JObj [(str ''customer_name'', JStr (str ''Cy''))])"

abbreviation tea_receipt :: json where
  "tea_receipt \<equiv>
     JObj [(str ''customer_name'', JStr (str ''Walk-in Customer'')),
           (str ''customer_pin'', JStr (str ''A001'')),
           (str ''payment_method'', JStr (str ''Cash'')),
           (str ''items'',
            JArr [JObj [(str ''name'', JStr (str ''Tea'')),
                        (str ''quantity'', JNum (str ''2'')),
                        (str ''price'', JNum (str ''10.5''))]])]"

abbreviation queue_ABC :: state where
  "queue_ABC \<equiv> enqueued receipt_C (enqueued receipt_B (enqueued receipt_A fresh))"

abbreviation only_B_fails :: "nat \<Rightarrow> fetch_result" where
  "only_B_fails \<equiv> (\<lambda>i. if i = Suc 0 then Rejected else Response 200)"


subsection \<open>Sample data for the receipt form\<close>

text \<open>
  A function standing for \<open>parseFloat\<close> on the strings of the samples, a valid row
  whose name has spaces around it, a row without a name, and a page around given rows.
\<close>

abbreviation sample_parseFloat :: "jsstring \<Rightarrow> number" where
  "sample_parseFloat \<equiv>
     (\<lambda>s. if s = str ''2'' then Finite 2 else if s = str ''10.50'' then Finite (21 / 2) else NaN)"

abbreviation tea_row :: item_row where
  "tea_row \<equiv> \<lparr>item_name = str '' Tea '', item_quantity = str ''2'', item_price = str ''10.50'',
     name_borderColor = [], quantity_borderColor = [], price_borderColor = []\<rparr>"

abbreviation unnamed_row :: item_row where
  "unnamed_row \<equiv> \<lparr>item_name = [], item_quantity = str ''2'', item_price = str ''10.50'',
     name_borderColor = [], quantity_borderColor = [], price_borderColor = []\<rparr>"

abbreviation sample_page :: "item_row list \<Rightarrow> page" where
  "sample_page rows \<equiv> \<lparr>item_rows = rows, customerName = [], customerPIN = str ''A001'',
     paymentMethod = str ''Cash'', alerts = [], button_innerHTML = str ''Generate ETR Receipt'',
     button_disabled = False, posted = [], modal_displayed = False, saved_receiptId = None,
     offlineManager = fresh\<rparr>"


section \<open>Properties of JSON text\<close>

subsection \<open>Strings\<close>

lemma hex_value_hex_digit: "d < 16 \<Longrightarrow> hex_value (hex_digit d) = Some d"
proof -
  assume "d < 16"
  then have "d = 0 \<or> d = 1 \<or> d = 2 \<or> d = 3 \<or> d = 4 \<or> d = 5 \<or> d = 6 \<or> d = 7 \<or> d = 8
      \<or> d = 9 \<or> d = 10 \<or> d = 11 \<or> d = 12 \<or> d = 13 \<or> d = 14 \<or> d = 15"
    by arith
  then show ?thesis
    by (elim disjE) (simp_all add: hex_value_def hex_digit_def)
qed


lemma unat_jschar_bound: "unat (c :: jschar) < 65536"
  using unsigned_less [of c, where 'a = nat] by simp

lemma surrogate_plain:
  "is_high_surrogate c \<or> is_low_surrogate c \<Longrightarrow> c \<noteq> 0x22 \<and> c \<noteq> 0x5C \<and> \<not> c < 0x20"
  by (auto simp: is_high_surrogate_def is_low_surrogate_def word_le_nat_alt word_less_nat_alt)


lemma hex_digits_value:
  "((n div 4096 * 16 + n div 256 mod 16) * 16 + n div 16 mod 16) * 16 + n mod 16 = (n::nat)"
proof -
  have a: "n div 4096 = n div 256 div 16" by (simp add: div_mult2_eq [symmetric])
  have b: "n div 256 = n div 16 div 16" by (simp add: div_mult2_eq [symmetric])
  have "n div 4096 * 16 + n div 256 mod 16 = n div 256"
    unfolding a by (rule div_mult_mod_eq)
  moreover have "n div 256 * 16 + n div 16 mod 16 = n div 16"
    unfolding b by (rule div_mult_mod_eq)
  moreover have "n div 16 * 16 + n mod 16 = n"
    by (rule div_mult_mod_eq)
  ultimately show ?thesis by simp
qed

lemma unescape4_digits:
  "unescape4 (hex_digit (unat c div 4096)) (hex_digit (unat c div 256 mod 16))
     (hex_digit (unat c div 16 mod 16)) (hex_digit (unat c mod 16)) = Some c"
proof -
  have b: "unat c < 65536" by (rule unat_jschar_bound)
  then have h1: "hex_value (hex_digit (unat c div 4096)) = Some (unat c div 4096)"
    by (intro hex_value_hex_digit) simp
  have h2: "hex_value (hex_digit (unat c div 256 mod 16)) = Some (unat c div 256 mod 16)"
    by (intro hex_value_hex_digit) simp
  have h3: "hex_value (hex_digit (unat c div 16 mod 16)) = Some (unat c div 16 mod 16)"
    by (intro hex_value_hex_digit) simp
  have h4: "hex_value (hex_digit (unat c mod 16)) = Some (unat c mod 16)"
    by (intro hex_value_hex_digit) simp
  have w: "(of_nat (unat c) :: jschar) = c" by simp
  show ?thesis
    unfolding unescape4_def h1 h2 h3 h4 option.case hex_digits_value w ..
qed

lemma parse_chars_u:
  "parse_chars (0x5C # 0x75 # h1 # h2 # h3 # h4 # s) =
     (case unescape4 h1 h2 h3 h4 of
        None \<Rightarrow> None
      | Some u \<Rightarrow> (case parse_chars s of None \<Rightarrow> None | Some (t, rest) \<Rightarrow> Some (u # t, rest)))"
  by simp

lemma parse_chars_UnicodeEscape:
  "parse_chars (UnicodeEscape c @ s) =
     (case parse_chars s of None \<Rightarrow> None | Some (t, rest) \<Rightarrow> Some (c # t, rest))"
  unfolding UnicodeEscape_def append_Cons append_Nil parse_chars_u unescape4_digits option.case ..

lemma parse_chars_plain:
  "c \<noteq> 0x22 \<Longrightarrow> c \<noteq> 0x5C \<Longrightarrow> \<not> c < 0x20 \<Longrightarrow>
     parse_chars (c # s) =
       (case parse_chars s of None \<Rightarrow> None | Some (t, rest) \<Rightarrow> Some (c # t, rest))"
  by simp

lemma parse_chars_escape:
  "e \<noteq> 0x75 \<Longrightarrow> parse_chars (0x5C # e # s) =
        (case unescape e of
           None \<Rightarrow> None
         | Some u \<Rightarrow> (case parse_chars s of None \<Rightarrow> None | Some (t, rest) \<Rightarrow> Some (u # t, rest)))"
  by simp

lemma step_esc:
  assumes "parse_chars (QuoteChars cs @ 0x22 # rest) = Some (cs, rest)"
    and "c = 0x08 \<or> c = 0x09 \<or> c = 0x0A \<or> c = 0x0C \<or> c = 0x0D \<or> c = 0x22 \<or> c = 0x5C"
  shows "parse_chars (QuoteChars (c # cs) @ 0x22 # rest) = Some (c # cs, rest)"
  using assms(2)
proof (elim disjE)
  assume "c = 0x08"
  then show ?thesis using assms(1) by (simp add: parse_chars_escape unescape_def del: parse_chars.simps)
next
  assume "c = 0x09"
  then show ?thesis using assms(1) by (simp add: parse_chars_escape unescape_def del: parse_chars.simps)
next
  assume "c = 0x0A"
  then show ?thesis using assms(1) by (simp add: parse_chars_escape unescape_def del: parse_chars.simps)
next
  assume "c = 0x0C"
  then show ?thesis using assms(1) by (simp add: parse_chars_escape unescape_def del: parse_chars.simps)
next
  assume "c = 0x0D"
  then show ?thesis using assms(1) by (simp add: parse_chars_escape unescape_def del: parse_chars.simps)
next
  assume "c = 0x22"
  then show ?thesis using assms(1) by (simp add: parse_chars_escape unescape_def del: parse_chars.simps)
next
  assume "c = 0x5C"
  then show ?thesis using assms(1) by (simp add: parse_chars_escape unescape_def del: parse_chars.simps)
qed


lemma step_escape_u:
  assumes "parse_chars (QuoteChars cs @ 0x22 # rest) = Some (cs, rest)"
  shows "parse_chars (UnicodeEscape c @ QuoteChars cs @ 0x22 # rest) = Some (c # cs, rest)"
  using assms by (simp add: parse_chars_UnicodeEscape del: parse_chars.simps)

lemma step_plain:
  assumes "parse_chars t = Some (cs, rest)"
    and "c \<noteq> 0x22" and "c \<noteq> 0x5C" and "\<not> c < 0x20"
  shows "parse_chars (c # t) = Some (c # cs, rest)"
  using assms by (simp add: parse_chars_plain del: parse_chars.simps)

lemma parse_chars_QuoteChars:
  "parse_chars (QuoteChars s @ 0x22 # rest) = Some (s, rest)"
proof (induction s rule: QuoteChars.induct)
  case 1
  show ?case by simp
next
  case (2 c cs)
  let ?esc = "c = 0x08 \<or> c = 0x09 \<or> c = 0x0A \<or> c = 0x0C \<or> c = 0x0D \<or> c = 0x22 \<or> c = 0x5C"
  show ?case
  proof (cases ?esc)
    case True
    then have "parse_chars (QuoteChars cs @ 0x22 # rest) = Some (cs, rest)"
      using "2.IH"(1-7) by blast
    then show ?thesis using True by (rule step_esc)
  next
    case nesc: False
    show ?thesis
    proof (cases "c < 0x20")
      case True
      have "parse_chars (QuoteChars cs @ 0x22 # rest) = Some (cs, rest)"
        using "2.IH"(8) nesc True by blast
      from step_escape_u [OF this, of c] nesc True show ?thesis
        by (simp del: parse_chars.simps)
    next
      case nctl: False
      show ?thesis
      proof (cases "is_high_surrogate c")
        case high: True
        show ?thesis
        proof (cases cs)
          case Nil
          have "parse_chars (UnicodeEscape c @ 0x22 # rest) = Some ([c], rest)"
            by (simp add: parse_chars_UnicodeEscape del: parse_chars.simps) simp
          with nesc nctl high Nil show ?thesis
            by (simp del: parse_chars.simps)
        next
          case (Cons d ds)
          show ?thesis
          proof (cases "is_low_surrogate d")
            case True
            have pd: "d \<noteq> 0x22" "d \<noteq> 0x5C" "\<not> d < 0x20"
              using True surrogate_plain [of d] by simp_all
            have pc: "c \<noteq> 0x22" "c \<noteq> 0x5C"
              using nesc by simp_all
            have "parse_chars (QuoteChars ds @ 0x22 # rest) = Some (ds, rest)"
              using "2.IH"(9) nesc nctl high Cons True by blast
            from step_plain [OF step_plain [OF this pd] pc nctl]
            show ?thesis using nesc nctl high Cons True
              by (simp del: parse_chars.simps)
          next
            case False
            have "parse_chars (QuoteChars cs @ 0x22 # rest) = Some (cs, rest)"
              using "2.IH"(10) nesc nctl high Cons False by blast
            from step_escape_u [OF this, of c] nesc nctl high Cons False show ?thesis
              by (simp del: parse_chars.simps)
          qed
        qed
      next
        case nhigh: False
        show ?thesis
        proof (cases "is_low_surrogate c")
          case True
          have "parse_chars (QuoteChars cs @ 0x22 # rest) = Some (cs, rest)"
            using "2.IH"(11) nesc nctl nhigh True by blast
          from step_escape_u [OF this, of c] nesc nctl nhigh True show ?thesis
            by (simp del: parse_chars.simps)
        next
          case False
          have pc: "c \<noteq> 0x22" "c \<noteq> 0x5C"
            using nesc by simp_all
          have "parse_chars (QuoteChars cs @ 0x22 # rest) = Some (cs, rest)"
            using "2.IH"(12) nesc nctl nhigh False by blast
          from step_plain [OF this pc nctl] nesc nctl nhigh False show ?thesis
            by (simp del: parse_chars.simps)
        qed
      qed
    qed
  qed
qed

subsection \<open>Numbers\<close>

lemma digits_append:
  "(dropWhile is_digit t = [] \<longrightarrow> ends_number rest) \<Longrightarrow>
     takeWhile is_digit (t @ rest) = takeWhile is_digit t
     \<and> dropWhile is_digit (t @ rest) = dropWhile is_digit t @ rest"
proof (induction t)
  case Nil
  then show ?case by (cases rest) (simp_all add: ends_number_def)
next
  case (Cons a t)
  then show ?case by simp
qed

lemma scan_int_append:
  assumes "scan_int s = Some (a, r)" and "r = [] \<longrightarrow> ends_number rest"
  shows "scan_int (s @ rest) = Some (a, r @ rest)"
proof (cases s)
  case Nil
  with assms show ?thesis by (simp add: scan_int_def)
next
  case (Cons d t)
  show ?thesis
  proof (cases "d = 0x30")
    case True
    with assms Cons show ?thesis by (auto simp: scan_int_def)
  next
    case False
    with assms Cons have d: "is_digit d" and a: "a = d # takeWhile is_digit t"
      and r: "r = dropWhile is_digit t"
      by (auto simp: scan_int_def split: if_splits)
    from assms(2) r have "dropWhile is_digit t = [] \<longrightarrow> ends_number rest" by simp
    from digits_append [OF this] Cons False d a r show ?thesis
      by (simp add: scan_int_def)
  qed
qed

lemma scan_frac_append:
  assumes "scan_frac s = Some (a, r)" and "r = [] \<longrightarrow> ends_number rest"
  shows "scan_frac (s @ rest) = Some (a, r @ rest)"
proof (cases s)
  case Nil
  with assms show ?thesis
    by (cases rest) (auto simp: scan_frac_def ends_number_def)
next
  case (Cons d t)
  show ?thesis
  proof (cases "d = 0x2E")
    case True
    with assms Cons have n: "takeWhile is_digit t \<noteq> []" and a: "a = d # takeWhile is_digit t"
      and r: "r = dropWhile is_digit t"
      by (auto simp: scan_frac_def split: if_splits)
    from assms(2) r have "dropWhile is_digit t = [] \<longrightarrow> ends_number rest" by simp
    from digits_append [OF this] Cons True n a r show ?thesis
      by (simp add: scan_frac_def)
  next
    case False
    with assms Cons show ?thesis by (auto simp: scan_frac_def)
  qed
qed

lemma scan_exp_append:
  assumes "scan_exp s = Some (a, r)" and "r = [] \<longrightarrow> ends_number rest"
  shows "scan_exp (s @ rest) = Some (a, r @ rest)"
proof (cases s)
  case Nil
  with assms show ?thesis
    by (cases rest) (auto simp: scan_exp_def ends_number_def)
next
  case (Cons e t)
  show ?thesis
  proof (cases "e = 0x65 \<or> e = 0x45")
    case True
    obtain sg r1 where sg: "scan_sign t = (sg, r1)" by (cases "scan_sign t") auto
    with assms Cons True have n: "takeWhile is_digit r1 \<noteq> []"
      and a: "a = e # sg @ takeWhile is_digit r1" and r: "r = dropWhile is_digit r1"
      by (auto simp: scan_exp_def split: if_splits)
    from n have r1: "r1 \<noteq> []" by auto
    have sg2: "scan_sign (t @ rest) = (sg, r1 @ rest)"
      using sg r1 by (cases t) (auto simp: scan_sign_def split: if_splits)
    from assms(2) r have "dropWhile is_digit r1 = [] \<longrightarrow> ends_number rest" by simp
    from digits_append [OF this] Cons True n a r sg2 show ?thesis
      by (simp add: scan_exp_def)
  next
    case False
    with assms Cons show ?thesis by (auto simp: scan_exp_def)
  qed
qed

lemma scan_number_append:
  assumes "scan_number n = Some (n, [])" and "ends_number rest"
  shows "scan_number (n @ rest) = Some (n, rest)"
proof -
  obtain neg s1 where sg: "(case n of [] \<Rightarrow> ([], n) | c # r \<Rightarrow> if c = 0x2D then ([c], r) else ([], n)) = (neg, s1)"
    by (cases "(case n of [] \<Rightarrow> ([], n) | c # r \<Rightarrow> if c = 0x2D then ([c], r) else ([], n))") auto
  from assms(1) sg obtain i s2 where i: "scan_int s1 = Some (i, s2)"
    by (auto simp: scan_number_def split: option.splits)
  from assms(1) sg i obtain f s3 where f: "scan_frac s2 = Some (f, s3)"
    by (auto simp: scan_number_def split: option.splits)
  from assms(1) sg i f obtain e where e: "scan_exp s3 = Some (e, [])" and n: "n = neg @ i @ f @ e"
    by (auto simp: scan_number_def split: option.splits)
  from i have s1: "s1 \<noteq> []" by (auto simp: scan_int_def)
  have s3: "s3 = [] \<longrightarrow> ends_number rest" and s2: "s2 = [] \<longrightarrow> ends_number rest"
    using assms(2) by simp_all
  have sg': "(case n @ rest of [] \<Rightarrow> ([], n @ rest) | c # r \<Rightarrow> if c = 0x2D then ([c], r) else ([], n @ rest))
      = (neg, s1 @ rest)"
    using sg s1 by (cases n) (auto split: if_splits)
  have i': "scan_int (s1 @ rest) = Some (i, s2 @ rest)" by (rule scan_int_append [OF i s2])
  have f': "scan_frac (s2 @ rest) = Some (f, s3 @ rest)" by (rule scan_frac_append [OF f s3])
  have e': "scan_exp (s3 @ rest) = Some (e, [] @ rest)"
    by (rule scan_exp_append [OF e]) (simp add: assms(2))
  show ?thesis
    unfolding scan_number_def sg' using i' f' e' n by simp
qed

lemma scan_number_first:
  assumes "scan_number n = Some (n, [])"
  shows "\<exists>c cs. n = c # cs \<and> (c = 0x2D \<or> is_digit c)"
proof -
  from assms show ?thesis
    by (cases n) (auto simp: scan_number_def scan_int_def is_digit_def split: option.splits if_splits list.splits)
qed

subsection \<open>Values\<close>

lemma number_start:
  "c = 0x2D \<or> is_digit c \<Longrightarrow>
     \<not> is_json_ws c \<and> c \<noteq> 0x5B \<and> c \<noteq> 0x7B \<and> c \<noteq> 0x22 \<and> c \<noteq> 0x5D \<and> c \<noteq> 0x7D"
  by (auto simp: is_json_ws_def is_digit_def word_le_nat_alt)

lemma skip_ws_start: "\<not> is_json_ws c \<Longrightarrow> skip_ws (c # cs) = c # cs"
  by (simp add: skip_ws_def)

lemma parse_value_string:
  "parse_value (0x22 # cs) =
     (case parse_chars cs of None \<Rightarrow> None | Some (t, r) \<Rightarrow> Some (JStr t, r))"
  by (subst parse_value.simps) (simp add: skip_ws_def is_json_ws_def del: parse_chars.simps)

lemma parse_value_array:
  "parse_value (0x5B # cs) =
     (case skip_ws cs of
        [] \<Rightarrow> None
      | d # ds \<Rightarrow>
          if d = 0x5D then Some (JArr [], ds)
          else (case parse_elements cs of None \<Rightarrow> None | Some (xs, r) \<Rightarrow> Some (JArr xs, r)))"
  by (subst parse_value.simps) (simp add: skip_ws_start is_json_ws_def)

lemma parse_value_object:
  "parse_value (0x7B # cs) =
     (case skip_ws cs of
        [] \<Rightarrow> None
      | d # ds \<Rightarrow>
          if d = 0x7D then Some (JObj [], ds)
          else (case parse_members cs of None \<Rightarrow> None | Some (ms, r) \<Rightarrow> Some (object_of ms, r)))"
  by (subst parse_value.simps) (simp add: skip_ws_start is_json_ws_def)

lemma parse_value_number:
  assumes "c = 0x2D \<or> is_digit c"
  shows "parse_value (c # cs) =
     (case scan_number (c # cs) of None \<Rightarrow> None | Some (n, r) \<Rightarrow> Some (JNum n, r))"
proof -
  from number_start [OF assms] have a: "\<not> is_json_ws c" "c \<noteq> 0x5B" "c \<noteq> 0x7B" "c \<noteq> 0x22"
    by simp_all
  show ?thesis
    by (subst parse_value.simps) (simp add: skip_ws_start a assms)
qed

lemma parse_value_null: "parse_value (str ''null'' @ rest) = Some (JNull, rest)"
  by (subst parse_value.simps)
     (simp add: str_def skip_ws_start is_json_ws_def is_digit_def match_literal_def)

lemma parse_value_true: "parse_value (str ''true'' @ rest) = Some (JBool True, rest)"
  by (subst parse_value.simps)
     (simp add: str_def skip_ws_start is_json_ws_def is_digit_def match_literal_def)

lemma parse_value_false: "parse_value (str ''false'' @ rest) = Some (JBool False, rest)"
  by (subst parse_value.simps)
     (simp add: str_def skip_ws_start is_json_ws_def is_digit_def match_literal_def)

lemma parse_elements_step:
  assumes "parse_value s = Some (v, c # cs)" and "\<not> is_json_ws c"
  shows "parse_elements s =
     (if c = 0x5D then Some ([v], cs)
      else if c = 0x2C \<and> length cs < length s then
        (case parse_elements cs of None \<Rightarrow> None | Some (vs, r') \<Rightarrow> Some (v # vs, r'))
      else None)"
  by (subst parse_elements.simps) (simp add: assms skip_ws_start)

lemma parse_members_step:
  assumes "parse_chars cs = Some (k, 0x3A # vs)" and "parse_value vs = Some (v, e # es)"
    and "\<not> is_json_ws e" and "length vs < Suc (length cs)"
  shows "parse_members (0x22 # cs) =
     (if e = 0x7D then Some ([(k, v)], es)
      else if e = 0x2C \<and> length es < Suc (length cs) then
        (case parse_members es of None \<Rightarrow> None | Some (ms, r') \<Rightarrow> Some ((k, v) # ms, r'))
      else None)"
proof -
  have a: "skip_ws (0x22 # cs) = 0x22 # cs" "skip_ws (0x3A # vs) = 0x3A # vs"
    by (simp_all add: skip_ws_start is_json_ws_def)
  have b: "skip_ws (e # es) = e # es"
    using assms(3) by (rule skip_ws_start)
  show ?thesis
    by (subst parse_members.simps) (simp add: assms(1,2,4) a b del: parse_chars.simps)
qed

lemma stringify_first:
  assumes "well_formed v"
  shows "\<exists>c cs. JSON_stringify v = c # cs \<and> \<not> is_json_ws c \<and> c \<noteq> 0x5D \<and> c \<noteq> 0x7D"
proof (cases v)
  case JNull
  then show ?thesis by (simp add: str_def is_json_ws_def)
next
  case (JBool b)
  then show ?thesis by (simp add: str_def is_json_ws_def)
next
  case (JNum n)
  with assms have "scan_number n = Some (n, [])" by simp
  from scan_number_first [OF this] obtain c cs where "n = c # cs" "c = 0x2D \<or> is_digit c"
    by blast
  with JNum number_start [of c] show ?thesis by simp
next
  case (JStr s)
  then show ?thesis by (simp add: QuoteJSONString_def is_json_ws_def)
next
  case (JArr xs)
  then show ?thesis by (simp add: is_json_ws_def)
next
  case (JObj ms)
  then show ?thesis by (simp add: is_json_ws_def)
qed

lemma ends_number_delimiter:
  "ends_number (0x2C # r)" "ends_number (0x5D # r)" "ends_number (0x7D # r)" "ends_number []"
  by (simp_all add: ends_number_def is_digit_def)

lemma stringify_roundtrip_all:
  "(well_formed v \<longrightarrow> (\<forall>rest. ends_number rest \<longrightarrow>
       parse_value (JSON_stringify v @ rest) = Some (v, rest)))
   \<and> (well_formed_elements xs \<longrightarrow> xs \<noteq> [] \<longrightarrow> (\<forall>rest.
       parse_elements (stringify_elements xs @ 0x5D # rest) = Some (xs, rest)))
   \<and> (well_formed_member m \<longrightarrow> (\<forall>rest. ends_number rest \<longrightarrow>
       parse_value (JSON_stringify (snd m) @ rest) = Some (snd m, rest)))
   \<and> (well_formed_members ms \<longrightarrow> ms \<noteq> [] \<longrightarrow> (\<forall>rest.
       parse_members (stringify_members ms @ 0x7D # rest) = Some (ms, rest)))"
proof (rule JSON_stringify_stringify_elements_stringify_members_stringify_member.induct
    [of "\<lambda>v. well_formed v \<longrightarrow> (\<forall>rest. ends_number rest \<longrightarrow>
           parse_value (JSON_stringify v @ rest) = Some (v, rest))"
        "\<lambda>xs. well_formed_elements xs \<longrightarrow> xs \<noteq> [] \<longrightarrow> (\<forall>rest.
           parse_elements (stringify_elements xs @ 0x5D # rest) = Some (xs, rest))"
        "\<lambda>ms. well_formed_members ms \<longrightarrow> ms \<noteq> [] \<longrightarrow> (\<forall>rest.
           parse_members (stringify_members ms @ 0x7D # rest) = Some (ms, rest))"
        "\<lambda>m. well_formed_member m \<longrightarrow> (\<forall>rest. ends_number rest \<longrightarrow>
           parse_value (JSON_stringify (snd m) @ rest) = Some (snd m, rest))"
        v xs m ms], goal_cases)
  case 1
  show ?case by (simp add: parse_value_null)
next
  case (2 b)
  show ?case by (simp add: parse_value_true parse_value_false)
next
  case (3 n)
  show ?case
  proof (intro impI allI)
    fix rest
    assume "well_formed (JNum n)" and er: "ends_number rest"
    then have w: "scan_number n = Some (n, [])" by simp
    from scan_number_first [OF w] obtain c cs where n: "n = c # cs" and c: "c = 0x2D \<or> is_digit c"
      by blast
    have "scan_number (c # cs @ rest) = Some (n, rest)"
      using scan_number_append [OF w er] n by simp
    then show "parse_value (JSON_stringify (JNum n) @ rest) = Some (JNum n, rest)"
      using n by (simp add: parse_value_number [OF c])
  qed
next
  case (4 s)
  show ?case
    by (simp add: QuoteJSONString_def parse_value_string parse_chars_QuoteChars del: parse_chars.simps)
next
  case (5 xs)
  show ?case
  proof (intro impI allI)
    fix rest
    assume w: "well_formed (JArr xs)" and er: "ends_number rest"
    show "parse_value (JSON_stringify (JArr xs) @ rest) = Some (JArr xs, rest)"
    proof (cases xs)
      case Nil
      then show ?thesis
        by (simp add: parse_value_array skip_ws_start is_json_ws_def)
    next
      case (Cons x xs')
      with w have wx: "well_formed x" by simp
      from stringify_first [OF wx] obtain c cs where
        f: "JSON_stringify x = c # cs" "\<not> is_json_ws c" "c \<noteq> 0x5D" by blast
      have "\<exists>t. stringify_elements xs @ 0x5D # rest = c # t"
        using Cons f by simp
      then obtain t where t: "stringify_elements xs @ 0x5D # rest = c # t" by blast
      have p: "parse_elements (stringify_elements xs @ 0x5D # rest) = Some (xs, rest)"
        using 5 w Cons by simp
      show ?thesis
        using p f(2,3) by (simp add: parse_value_array t skip_ws_start)
    qed
  qed
next
  case (6 ms)
  show ?case
  proof (intro impI allI)
    fix rest
    assume w: "well_formed (JObj ms)" and er: "ends_number rest"
    then have o: "object_of ms = JObj ms" by (simp add: object_of_def)
    show "parse_value (JSON_stringify (JObj ms) @ rest) = Some (JObj ms, rest)"
    proof (cases ms)
      case Nil
      then show ?thesis
        by (simp add: parse_value_object skip_ws_start is_json_ws_def)
    next
      case (Cons m ms')
      have "\<exists>t. stringify_members ms @ 0x7D # rest = 0x22 # t"
        using Cons by (cases m) (simp add: QuoteJSONString_def)
      then obtain t where t: "stringify_members ms @ 0x7D # rest = 0x22 # t" by blast
      have p: "parse_members (stringify_members ms @ 0x7D # rest) = Some (ms, rest)"
        using 6 w Cons by simp
      show ?thesis
        using p o by (simp add: parse_value_object t skip_ws_start is_json_ws_def)
    qed
  qed
next
  case 7
  show ?case by simp
next
  case (8 x xs)
  show ?case
  proof (intro impI allI)
    fix rest
    assume w: "well_formed_elements (x # xs)"
    then have wx: "well_formed x" and wxs: "well_formed_elements xs" by simp_all
    show "parse_elements (stringify_elements (x # xs) @ 0x5D # rest) = Some (x # xs, rest)"
    proof (cases "xs = []")
      case True
      have "parse_value (JSON_stringify x @ 0x5D # rest) = Some (x, 0x5D # rest)"
        using 8(1) wx ends_number_delimiter(2) by blast
      from parse_elements_step [OF this] True show ?thesis
        by (simp add: is_json_ws_def)
    next
      case False
      let ?tail = "stringify_elements xs @ 0x5D # rest"
      have v: "parse_value (JSON_stringify x @ 0x2C # ?tail) = Some (x, 0x2C # ?tail)"
        using 8(1) wx ends_number_delimiter(1) by blast
      have e: "parse_elements ?tail = Some (xs, rest)"
        using 8(2) wxs False by blast
      from parse_elements_step [OF v] e False show ?thesis
        by (simp add: is_json_ws_def)
    qed
  qed
next
  case (9 k v)
  then show ?case by simp
next
  case 10
  show ?case by simp
next
  case (11 m ms)
  show ?case
  proof (intro impI allI)
    fix rest
    assume w: "well_formed_members (m # ms)"
    obtain k v where m: "m = (k, v)" by (cases m) auto
    from w have wm: "well_formed_member m" and wms: "well_formed_members ms"
      by simp_all
    show "parse_members (stringify_members (m # ms) @ 0x7D # rest) = Some (m # ms, rest)"
    proof (cases "ms = []")
      case True
      let ?r = "0x7D # rest"
      have c: "parse_chars (QuoteChars k @ 0x22 # 0x3A # JSON_stringify v @ ?r)
          = Some (k, 0x3A # JSON_stringify v @ ?r)"
        by (rule parse_chars_QuoteChars)
      have pv: "parse_value (JSON_stringify v @ ?r) = Some (v, ?r)"
        using 11(1) wm ends_number_delimiter(3) m by fastforce
      have ws: "\<not> is_json_ws (0x7D :: jschar)" by (simp add: is_json_ws_def)
      from parse_members_step [OF c pv ws] True m show ?thesis
        by (simp add: QuoteJSONString_def del: parse_chars.simps)
    next
      case False
      let ?tail = "stringify_members ms @ 0x7D # rest"
      let ?r = "0x2C # ?tail"
      have c: "parse_chars (QuoteChars k @ 0x22 # 0x3A # JSON_stringify v @ ?r)
          = Some (k, 0x3A # JSON_stringify v @ ?r)"
        by (rule parse_chars_QuoteChars)
      have pv: "parse_value (JSON_stringify v @ ?r) = Some (v, ?r)"
        using 11(1) wm ends_number_delimiter(1) m by fastforce
      have ws: "\<not> is_json_ws (0x2C :: jschar)" by (simp add: is_json_ws_def)
      have e: "parse_members ?tail = Some (ms, rest)"
        using 11(2) wms False by blast
      from parse_members_step [OF c pv ws] e False m show ?thesis
        by (simp add: QuoteJSONString_def del: parse_chars.simps)
    qed
  qed
qed

lemma JSON_parse_stringify:
  assumes "well_formed v"
  shows "JSON_parse (JSON_stringify v) = Inr v"
proof -
  have "parse_value (JSON_stringify v @ []) = Some (v, [])"
    using stringify_roundtrip_all [of v "[]" "([], JNull)" "[]"] assms ends_number_delimiter(4)
    by blast
  then show ?thesis by (simp add: JSON_parse_def skip_ws_def)
qed

lemma insert_property_last:
  "array_index (fst m) = None \<Longrightarrow> insert_property m ps = ps @ [m]"
  by (induction ps) simp_all

lemma define_properties_plain:
  "distinct (map fst (acc @ ms)) \<Longrightarrow> \<forall>m\<in>set ms. array_index (fst m) = None \<Longrightarrow>
     foldl define_property acc ms = acc @ ms"
proof (induction ms arbitrary: acc)
  case Nil
  show ?case by simp
next
  case (Cons m ms)
  from Cons.prems(1) have n: "fst m \<notin> fst ` set acc" by auto
  from Cons.prems(2) have i: "array_index (fst m) = None" by simp
  have d: "define_property acc m = acc @ [m]"
    using n by (simp add: define_property_def insert_property_last [OF i])
  have "foldl define_property (acc @ [m]) ms = (acc @ [m]) @ ms"
    using Cons.prems by (intro Cons.IH) simp_all
  then show ?case by (simp add: d)
qed

lemma property_order_plain:
  "distinct (map fst ms) \<Longrightarrow> \<forall>m\<in>set ms. array_index (fst m) = None \<Longrightarrow>
     foldl define_property [] ms = ms"
  using define_properties_plain [of "[]" ms] by simp


subsection \<open>The length tests of the parser\<close>

text \<open>
  Every parser returns a rest that is shorter than its input. So the length tests in
  \<open>parse_elements\<close> and \<open>parse_members\<close>, which make the recursion well founded,
  never fail, and both functions obey the equations of the grammar without them.
\<close>

lemma parse_chars_shorter: "parse_chars s = Some (t, r) \<Longrightarrow> length r < length s"
proof (induction s arbitrary: t r rule: parse_chars.induct)
  case 1
  then show ?case by simp
next
  case (2 c cs)
  then show ?case
    by (auto split: if_splits list.splits option.splits) fastforce+
qed


lemma skip_ws_length: "length (skip_ws s) \<le> length s"
  by (simp add: skip_ws_def length_dropWhile_le)

lemma skip_ws_Cons_length: "skip_ws s = c # cs \<Longrightarrow> length cs < length s"
  using skip_ws_length [of s] by simp

lemma scan_int_shorter: "scan_int s = Some (a, r) \<Longrightarrow> length r < length s"
  using length_dropWhile_le [of is_digit "tl s"]
  by (cases s) (auto simp: scan_int_def split: if_splits)

lemma scan_frac_shorter: "scan_frac s = Some (a, r) \<Longrightarrow> length r \<le> length s"
  using length_dropWhile_le [of is_digit "tl s"]
  by (cases s) (auto simp: scan_frac_def split: if_splits)

lemma scan_sign_shorter: "scan_sign s = (a, r) \<Longrightarrow> length r \<le> length s"
  by (cases s) (auto simp: scan_sign_def split: if_splits)

lemma scan_exp_shorter: "scan_exp s = Some (a, r) \<Longrightarrow> length r \<le> length s"
proof (cases s)
  case Nil
  assume "scan_exp s = Some (a, r)"
  with Nil show ?thesis by (simp add: scan_exp_def)
next
  case (Cons e t)
  assume a: "scan_exp s = Some (a, r)"
  obtain sg r1 where sg: "scan_sign t = (sg, r1)" by (cases "scan_sign t") auto
  from scan_sign_shorter [OF sg] have "length r1 \<le> length t" .
  moreover have "length (dropWhile is_digit r1) \<le> length r1" by (rule length_dropWhile_le)
  ultimately show ?thesis
    using a Cons sg by (auto simp: scan_exp_def split: if_splits)
qed

lemma scan_number_shorter: "scan_number s = Some (n, r) \<Longrightarrow> length r < length s"
proof -
  assume a: "scan_number s = Some (n, r)"
  obtain neg s1 where sg: "(case s of [] \<Rightarrow> ([], s) | c # r \<Rightarrow> if c = 0x2D then ([c], r) else ([], s)) = (neg, s1)"
    by (cases "(case s of [] \<Rightarrow> ([], s) | c # r \<Rightarrow> if c = 0x2D then ([c], r) else ([], s))") auto
  then have l: "length s1 \<le> length s" by (cases s) (auto split: if_splits)
  from a sg obtain i s2 where i: "scan_int s1 = Some (i, s2)"
    by (auto simp: scan_number_def split: option.splits)
  from a sg i obtain f s3 where f: "scan_frac s2 = Some (f, s3)"
    by (auto simp: scan_number_def split: option.splits)
  from a sg i f obtain e where e: "scan_exp s3 = Some (e, r)"
    by (auto simp: scan_number_def split: option.splits)
  from scan_int_shorter [OF i] scan_frac_shorter [OF f] scan_exp_shorter [OF e] l
  show ?thesis by simp
qed

lemma match_literal_shorter: "lit \<noteq> [] \<Longrightarrow> match_literal lit s = Some r \<Longrightarrow> length r < length s"
proof -
  assume n: "lit \<noteq> []" and m: "match_literal lit s = Some r"
  then have t: "take (length lit) s = lit" and r: "r = drop (length lit) s"
    by (auto simp: match_literal_def split: if_splits)
  from t have "length lit \<le> length s"
    by (metis length_take min.cobounded1)
  with n r show ?thesis by (cases lit) auto
qed

lemma parse_shorter:
  "parse_value s = Some (v, r) \<Longrightarrow> length r < length s"
  "parse_elements s1 = Some (xs, r1) \<Longrightarrow> length r1 < length s1"
  "parse_members s2 = Some (ms, r2) \<Longrightarrow> length r2 < length s2"
proof (induction s and s1 and s2 arbitrary: v r and xs r1 and ms r2
    rule: parse_value_parse_elements_parse_members.induct)
  case (1 s)
  obtain c cs where sk: "skip_ws s = c # cs"
    using "1.prems" by (subst (asm) parse_value.simps) (auto split: list.splits)
  note l = skip_ws_Cons_length [OF sk]
  have lit: "str ''null'' \<noteq> []" "str ''true'' \<noteq> []" "str ''false'' \<noteq> []"
    by (simp_all add: str_def)
  from "1.prems" have body:
    "(if c = 0x5B then
            (case skip_ws cs of
               [] \<Rightarrow> None
             | d # ds \<Rightarrow>
                 if d = 0x5D then Some (JArr [], ds)
                 else (case parse_elements cs of
                         None \<Rightarrow> None
                       | Some (xs, r) \<Rightarrow> Some (JArr xs, r)))
          else if c = 0x7B then
            (case skip_ws cs of
               [] \<Rightarrow> None
             | d # ds \<Rightarrow>
                 if d = 0x7D then Some (JObj [], ds)
                 else (case parse_members cs of
                         None \<Rightarrow> None
                       | Some (ms, r) \<Rightarrow> Some (object_of ms, r)))
          else if c = 0x22 then
            (case parse_chars cs of
               None \<Rightarrow> None
             | Some (t, r) \<Rightarrow> Some (JStr t, r))
          else if c = 0x2D \<or> is_digit c then
            (case scan_number (c # cs) of
               None \<Rightarrow> None
             | Some (n, r) \<Rightarrow> Some (JNum n, r))
          else if c = 0x6E then
            (case match_literal (str ''null'') (c # cs) of
               None \<Rightarrow> None
             | Some r \<Rightarrow> Some (JNull, r))
          else if c = 0x74 then
            (case match_literal (str ''true'') (c # cs) of
               None \<Rightarrow> None
             | Some r \<Rightarrow> Some (JBool True, r))
          else if c = 0x66 then
            (case match_literal (str ''false'') (c # cs) of
               None \<Rightarrow> None
             | Some r \<Rightarrow> Some (JBool False, r))
          else None) = Some (v, r)"
    by (subst (asm) parse_value.simps) (simp add: sk)
  show ?case
  proof (cases "c = 0x5B")
    case True
    from body True obtain d ds where sk2: "skip_ws cs = d # ds"
      by (auto split: list.splits)
    show ?thesis
    proof (cases "d = 0x5D")
      case d: True
      with body True sk2 have "r = ds" by simp
      with skip_ws_Cons_length [OF sk2] l show ?thesis by simp
    next
      case d: False
      with body True sk2 obtain xs where "parse_elements cs = Some (xs, r)"
        by (auto split: option.splits)
      from "1.IH"(1) [OF sk True sk2 d this] l show ?thesis by simp
    qed
  next
    case n1: False
    show ?thesis
    proof (cases "c = 0x7B")
      case True
      from body n1 True obtain d ds where sk2: "skip_ws cs = d # ds"
        by (auto split: list.splits)
      show ?thesis
      proof (cases "d = 0x7D")
        case d: True
        with body n1 True sk2 have "r = ds" by simp
        with skip_ws_Cons_length [OF sk2] l show ?thesis by simp
      next
        case d: False
        with body n1 True sk2 obtain ms where "parse_members cs = Some (ms, r)"
          by (auto split: option.splits)
        from "1.IH"(2) [OF sk n1 True sk2 d this] l show ?thesis by simp
      qed
    next
      case n2: False
      show ?thesis
      proof (cases "c = 0x22")
        case True
        with body n1 n2 obtain t where "parse_chars cs = Some (t, r)"
          by (auto split: option.splits)
        from parse_chars_shorter [OF this] l show ?thesis by simp
      next
        case n3: False
        show ?thesis
        proof (cases "c = 0x2D \<or> is_digit c")
          case True
          with body n1 n2 n3 obtain n where "scan_number (c # cs) = Some (n, r)"
            by (auto split: option.splits)
          from scan_number_shorter [OF this] l show ?thesis by simp
        next
          case n4: False
          from body n1 n2 n3 n4 have
            "match_literal (str ''null'') (c # cs) = Some r
             \<or> match_literal (str ''true'') (c # cs) = Some r
             \<or> match_literal (str ''false'') (c # cs) = Some r"
            by (auto split: if_splits option.splits)
          with match_literal_shorter [of _ "c # cs" r] lit l show ?thesis
            by fastforce
        qed
      qed
    qed
  qed
next
  case (2 s)
  from "2.prems" obtain v r where pv: "parse_value s = Some (v, r)"
    by (subst (asm) parse_elements.simps) (auto split: option.splits)
  from "2.IH"(1) [OF pv] have lr: "length r < length s" .
  from "2.prems" pv obtain c cs where sk: "skip_ws r = c # cs"
    by (subst (asm) parse_elements.simps) (auto split: list.splits)
  note l = skip_ws_Cons_length [OF sk]
  from "2.prems" pv sk have body:
    "(if c = 0x5D then Some ([v], cs)
      else if c = 0x2C \<and> length cs < length s then
        (case parse_elements cs of None \<Rightarrow> None | Some (vs, r') \<Rightarrow> Some (v # vs, r'))
      else None) = Some (xs, r1)"
    by (subst (asm) parse_elements.simps) simp
  show ?case
  proof (cases "c = 0x5D")
    case True
    with body have "r1 = cs" by simp
    with l lr show ?thesis by simp
  next
    case False
    with body have g: "c = 0x2C \<and> length cs < length s" by (auto split: if_splits)
    with body False obtain vs where "parse_elements cs = Some (vs, r1)"
      by (auto split: option.splits)
    from "2.IH"(2) [OF pv refl sk False g this] g show ?thesis by simp
  qed
next
  case (3 s)
  from "3.prems" obtain q cs where sk: "skip_ws s = q # cs"
    by (subst (asm) parse_members.simps) (auto split: list.splits)
  from "3.prems" sk have q: "q = 0x22"
    by (subst (asm) parse_members.simps) (auto split: if_splits)
  from "3.prems" sk q obtain k r where pc: "parse_chars cs = Some (k, r)"
    by (subst (asm) parse_members.simps) (auto split: option.splits)
  from "3.prems" sk q pc obtain c vs where sk2: "skip_ws r = c # vs"
    by (subst (asm) parse_members.simps) (auto split: list.splits)
  from "3.prems" sk q pc sk2 have g: "c = 0x3A \<and> length vs < length s"
    by (subst (asm) parse_members.simps) (auto split: if_splits)
  from "3.prems" sk q pc sk2 g obtain v r' where pv: "parse_value vs = Some (v, r')"
    by (subst (asm) parse_members.simps) (auto split: option.splits)
  from "3.prems" sk q pc sk2 g pv obtain e es where sk3: "skip_ws r' = e # es"
    by (subst (asm) parse_members.simps) (auto split: list.splits)
  from "3.prems" sk q pc sk2 g pv sk3 have body:
    "(if e = 0x7D then Some ([(k, v)], es)
      else if e = 0x2C \<and> length es < length s then
        (case parse_members es of None \<Rightarrow> None | Some (ms, r') \<Rightarrow> Some ((k, v) # ms, r'))
      else None) = Some (ms, r2)"
    by (subst (asm) parse_members.simps) simp
  from "3.IH"(1) [OF sk q pc refl sk2 g pv] have lv: "length r' < length vs" .
  note l3 = skip_ws_Cons_length [OF sk3]
  show ?case
  proof (cases "e = 0x7D")
    case True
    with body have "r2 = es" by simp
    with l3 lv g show ?thesis by simp
  next
    case False
    with body have g2: "e = 0x2C \<and> length es < length s" by (auto split: if_splits)
    with body False obtain ms' where "parse_members es = Some (ms', r2)"
      by (auto split: option.splits)
    from "3.IH"(2) [OF sk q pc refl sk2 g pv refl sk3 False g2 this] g2 show ?thesis by simp
  qed
qed

lemma parse_elements_unguarded:
  "parse_elements s =
     (case parse_value s of
        None \<Rightarrow> None
      | Some (v, r) \<Rightarrow>
          (case skip_ws r of
             [] \<Rightarrow> None
           | c # cs \<Rightarrow>
               if c = 0x5D then Some ([v], cs)
               else if c = 0x2C then
                 (case parse_elements cs of
                    None \<Rightarrow> None
                  | Some (vs, r') \<Rightarrow> Some (v # vs, r'))
               else None))"
proof (cases "parse_value s")
  case None
  then show ?thesis by (subst parse_elements.simps) simp
next
  case (Some p)
  obtain v r where p: "p = (v, r)" by (cases p) auto
  from parse_shorter(1) [of s v r] Some p have lr: "length r < length s" by simp
  show ?thesis
  proof (cases "skip_ws r")
    case Nil
    with Some p show ?thesis by (subst parse_elements.simps) simp
  next
    case (Cons c cs)
    from skip_ws_Cons_length [OF Cons] lr have "length cs < length s" by simp
    with Some p Cons show ?thesis by (subst parse_elements.simps) simp
  qed
qed

lemma parse_members_unguarded:
  "parse_members s =
     (case skip_ws s of
        [] \<Rightarrow> None
      | q # cs \<Rightarrow>
          if q = 0x22 then
            (case parse_chars cs of
               None \<Rightarrow> None
             | Some (k, r) \<Rightarrow>
                 (case skip_ws r of
                    [] \<Rightarrow> None
                  | c # vs \<Rightarrow>
                      if c = 0x3A then
                        (case parse_value vs of
                           None \<Rightarrow> None
                         | Some (v, r1) \<Rightarrow>
                             (case skip_ws r1 of
                                [] \<Rightarrow> None
                              | e # es \<Rightarrow>
                                  if e = 0x7D then Some ([(k, v)], es)
                                  else if e = 0x2C then
                                    (case parse_members es of
                                       None \<Rightarrow> None
                                     | Some (ms, r') \<Rightarrow> Some ((k, v) # ms, r'))
                                  else None))
                      else None))
          else None)"
proof (cases "skip_ws s")
  case Nil
  then show ?thesis by (subst parse_members.simps) simp
next
  case sk: (Cons q cs)
  note l0 = skip_ws_Cons_length [OF sk]
  show ?thesis
  proof (cases "parse_chars cs")
    case None
    with sk show ?thesis by (subst parse_members.simps) simp
  next
    case (Some p)
    obtain k r where p: "p = (k, r)" by (cases p) auto
    from parse_chars_shorter [of cs k r] Some p have l1: "length r < length cs" by simp
    show ?thesis
    proof (cases "skip_ws r")
      case Nil
      with sk Some p show ?thesis by (subst parse_members.simps) simp
    next
      case sk2: (Cons c vs)
      from skip_ws_Cons_length [OF sk2] l0 l1 have g1: "length vs < length s" by simp
      show ?thesis
      proof (cases "parse_value vs")
        case None
        with sk Some p sk2 show ?thesis by (subst parse_members.simps) simp
      next
        case pv: (Some p')
        obtain v r1 where p': "p' = (v, r1)" by (cases p') auto
        from parse_shorter(1) [of vs v r1] pv p' have l2: "length r1 < length vs" by simp
        show ?thesis
        proof (cases "skip_ws r1")
          case Nil
          with sk Some p sk2 pv p' show ?thesis by (subst parse_members.simps) simp
        next
          case sk3: (Cons e es)
          from skip_ws_Cons_length [OF sk3] l2 g1 have g2: "length es < length s" by simp
          with sk Some p sk2 pv p' sk3 g1 show ?thesis
            by (subst parse_members.simps) simp
        qed
      qed
    qed
  qed
qed


section \<open>Properties of the offline manager\<close>

lemma enqueued_eq:
  "enqueued r s = showOfflineNotification (save (s\<lparr>pendingReceipts := pendingReceipts s @ [r]\<rparr>))"
  by (simp add: storeReceiptOffline_def setItem_def save_def Let_def)

lemma tea_receipt_well_formed: "well_formed tea_receipt"
  by (simp add: str_def define_property_def array_index_def is_digit_def
      scan_number_def scan_int_def scan_frac_def scan_exp_def)

lemma well_formed_contents:
  "list_all (\<lambda>r. well_formed (content r)) q \<Longrightarrow> well_formed (JArr (map content q))"
  by (induction q) simp_all

lemma serialize_not_empty: "serialize q \<noteq> []"
  by (simp add: serialize_def)

lemma load_serialized:
  assumes "list_all (\<lambda>r. well_formed (content r)) q"
    and "storage ''pendingReceipts'' = Some (serialize q)"
  shows "load storage = Inr (JArr (map content q))"
proof -
  have "JSON_parse (serialize q) = Inr (JArr (map content q))"
    unfolding serialize_def by (rule JSON_parse_stringify [OF well_formed_contents [OF assms(1)]])
  then show ?thesis
    using assms(2) serialize_not_empty [of q] by (simp add: load_def)
qed

lemma sync_step_sync_calls: "sync_calls (sync_step outcome receipt s) = sync_calls s"
  by (cases outcome) (simp_all add: sync_step_def save_def Let_def)

lemma sync_loop_sync_calls: "sync_calls (sync_loop net i q s) = sync_calls s"
  by (induction q arbitrary: i s) (simp_all add: sync_step_sync_calls)

lemma handleOnline_sync_calls: "sync_calls (handleOnline net s) = Suc (sync_calls s)"
  by (simp add: handleOnline_def syncPendingReceipts_def sync_loop_sync_calls)

lemma handleOffline_sync_calls: "sync_calls (handleOffline s) = sync_calls s"
  by (simp add: handleOffline_def showOfflineNotification_def)

lemma run_sync_calls:
  "sync_calls (run es s) = sync_calls s + length (filter is_online_event es)"
proof (induction es arbitrary: s)
  case Nil
  show ?case by simp
next
  case (Cons e es)
  show ?case
    by (cases e) (simp_all add: Cons.IH handleOnline_sync_calls handleOffline_sync_calls)
qed

text \<open>
  C1, as stated, fails for a stored text that is not JSON: the load does not return an
  empty sequence, \<open>JSON.parse\<close> throws and nothing catches the exception. Here the
  stored text is a queue cut off in the middle of a write.
\<close>

theorem load_corrupt_counterexample:
  "load [''pendingReceipts'' \<mapsto> str ''[{\"customer_name\":\"An''] = Inl SyntaxError"
  by (simp add: load_def JSON_parse_def parse_value.simps parse_elements.simps parse_members.simps
      str_def skip_ws_def is_json_ws_def)

text \<open>
  C1, amended. When the key is absent, or holds the empty text, the load returns the
  empty sequence. For every other stored text the load is \<open>JSON.parse\<close> of that
  text: the value that the text denotes when it is JSON, and a \<open>SyntaxError\<close>, thrown
  to the caller of the constructor, when it is not.
\<close>

theorem load_cases:
  "load storage =
     (case storage ''pendingReceipts'' of
        None \<Rightarrow> Inr (JArr [])
      | Some text \<Rightarrow> if text = [] then Inr (JArr []) else JSON_parse text)
   \<and> load (storage(''pendingReceipts'' := None)) = Inr (JArr [])
   \<and> load (storage(''pendingReceipts'' \<mapsto> [])) = Inr (JArr [])
   \<and> load (storage(''pendingReceipts'' \<mapsto> c # cs)) = JSON_parse (c # cs)"
proof -
  have e: "JSON_parse (str ''[]'') = Inr (JArr [])"
    by (simp add: JSON_parse_def parse_value.simps str_def skip_ws_def is_json_ws_def)
  show ?thesis
    by (simp add: load_def e split: option.split)
qed

text \<open>
  C5, as stated, fails when the storage refuses the write: the receipt is in the queue
  in memory, nothing is stored and no notification is shown, and the exception reaches
  the caller.
\<close>

theorem storeReceiptOffline_refused_counterexample:
  "storeReceiptOffline QuotaExceeded receipt_A fresh
     = Inl (QuotaExceededError, fresh\<lparr>pendingReceipts := [receipt_A]\<rparr>)
   \<and> localStorage (state_after (storeReceiptOffline QuotaExceeded receipt_A fresh)) ''pendingReceipts''
       = None
   \<and> load (localStorage (state_after (storeReceiptOffline QuotaExceeded receipt_A fresh)))
       = Inr (JArr [])
   \<and> offline_indicators (state_after (storeReceiptOffline QuotaExceeded receipt_A fresh)) = 0"
  by (simp add: storeReceiptOffline_def setItem_def load_def JSON_parse_def parse_value.simps
      str_def skip_ws_def is_json_ws_def)

text \<open>
  C5, amended. Whatever the state and whether the write is accepted or not,
  \<open>storeReceiptOffline\<close> keeps the entries already queued, in their order, and puts
  the new receipt last. When the storage accepts the write, the method returns, the
  text stored under \<open>pendingReceipts\<close> is the serialization of the new queue, loading
  returns the new queue when the receipts are values that JSON text can carry, and one
  more offline indicator is appended, whatever the state; nothing else changes. When
  the storage refuses the write, the method throws \<open>QuotaExceededError\<close>, and only the
  queue in memory has changed. A queue of two entries becomes a queue of three with the
  new receipt last.
\<close>

theorem storeReceiptOffline_appends:
  "pendingReceipts (state_after (storeReceiptOffline written r s)) = pendingReceipts s @ [r]
   \<and> take (length (pendingReceipts s)) (pendingReceipts (state_after (storeReceiptOffline written r s)))
       = pendingReceipts s
   \<and> last (pendingReceipts (state_after (storeReceiptOffline written r s))) = r
   \<and> length (pendingReceipts (state_after (storeReceiptOffline written r s)))
       = Suc (length (pendingReceipts s))
   \<and> storeReceiptOffline Written r s =
       Inr (s\<lparr>pendingReceipts := pendingReceipts s @ [r],
              localStorage := (localStorage s)(''pendingReceipts'' \<mapsto>
                JSON_stringify (JArr (map content (pendingReceipts s @ [r])))),
              offline_indicators := Suc (offline_indicators s)\<rparr>)
   \<and> storeReceiptOffline QuotaExceeded r s =
       Inl (QuotaExceededError, s\<lparr>pendingReceipts := pendingReceipts s @ [r]\<rparr>)
   \<and> (list_all (\<lambda>x. well_formed (content x)) (pendingReceipts s @ [r]) \<longrightarrow>
        load (localStorage (state_after (storeReceiptOffline Written r s)))
          = Inr (JArr (map content (pendingReceipts s @ [r]))))"
proof -
  have q: "pendingReceipts (state_after (storeReceiptOffline written r s)) = pendingReceipts s @ [r]"
    by (cases written)
       (simp_all add: storeReceiptOffline_def setItem_def showOfflineNotification_def Let_def)
  have w: "storeReceiptOffline Written r s =
       Inr (s\<lparr>pendingReceipts := pendingReceipts s @ [r],
              localStorage := (localStorage s)(''pendingReceipts'' \<mapsto>
                JSON_stringify (JArr (map content (pendingReceipts s @ [r])))),
              offline_indicators := Suc (offline_indicators s)\<rparr>)"
    by (simp add: storeReceiptOffline_def setItem_def showOfflineNotification_def serialize_def Let_def)
  have e: "storeReceiptOffline QuotaExceeded r s =
       Inl (QuotaExceededError, s\<lparr>pendingReceipts := pendingReceipts s @ [r]\<rparr>)"
    by (simp add: storeReceiptOffline_def setItem_def Let_def)
  have l: "list_all (\<lambda>x. well_formed (content x)) (pendingReceipts s @ [r]) \<longrightarrow>
        load (localStorage (state_after (storeReceiptOffline Written r s)))
          = Inr (JArr (map content (pendingReceipts s @ [r])))"
  proof
    assume wf: "list_all (\<lambda>x. well_formed (content x)) (pendingReceipts s @ [r])"
    have "localStorage (state_after (storeReceiptOffline Written r s)) ''pendingReceipts''
        = Some (serialize (pendingReceipts s @ [r]))"
      by (simp add: w serialize_def)
    from load_serialized [of "pendingReceipts s @ [r]"
        "localStorage (state_after (storeReceiptOffline Written r s))", OF wf this]
    show "load (localStorage (state_after (storeReceiptOffline Written r s)))
          = Inr (JArr (map content (pendingReceipts s @ [r])))" .
  qed
  from q w e l show ?thesis by simp
qed

theorem storeReceiptOffline_appends_witness:
  "list_all (\<lambda>x. well_formed (content x))
     (pendingReceipts (enqueued receipt_B (enqueued receipt_A fresh)) @ [receipt_C])
   \<and> pendingReceipts (enqueued receipt_B (enqueued receipt_A fresh)) = [receipt_A, receipt_B]
   \<and> pendingReceipts (state_after
        (storeReceiptOffline Written receipt_C (enqueued receipt_B (enqueued receipt_A fresh))))
       = [receipt_A, receipt_B, receipt_C]
   \<and> load (localStorage (state_after
        (storeReceiptOffline Written receipt_C (enqueued receipt_B (enqueued receipt_A fresh)))))
       = Inr (JArr [content receipt_A, content receipt_B, content receipt_C])"
proof -
  have q: "pendingReceipts (enqueued receipt_B (enqueued receipt_A fresh)) = [receipt_A, receipt_B]"
    by (simp add: enqueued_eq showOfflineNotification_def save_def)
  have wf: "list_all (\<lambda>x. well_formed (content x)) ([receipt_A, receipt_B] @ [receipt_C])"
    by (simp add: str_def define_property_def array_index_def is_digit_def)
  have m: "map content ([receipt_A, receipt_B] @ [receipt_C])
      = [content receipt_A, content receipt_B, content receipt_C]"
    and a: "[receipt_A, receipt_B] @ [receipt_C] = [receipt_A, receipt_B, receipt_C]"
    by simp_all
  note t = storeReceiptOffline_appends
      [of Written receipt_C "enqueued receipt_B (enqueued receipt_A fresh)", unfolded q]
  from t have p1: "pendingReceipts (state_after
        (storeReceiptOffline Written receipt_C (enqueued receipt_B (enqueued receipt_A fresh))))
       = [receipt_A, receipt_B] @ [receipt_C]"
    by (rule conjunct1)
  from t wf have p2: "load (localStorage (state_after
        (storeReceiptOffline Written receipt_C (enqueued receipt_B (enqueued receipt_A fresh)))))
       = Inr (JArr (map content ([receipt_A, receipt_B] @ [receipt_C])))"
    by blast
  from p1 p2 have "pendingReceipts (state_after
        (storeReceiptOffline Written receipt_C (enqueued receipt_B (enqueued receipt_A fresh))))
       = [receipt_A, receipt_B, receipt_C]
     \<and> load (localStorage (state_after
        (storeReceiptOffline Written receipt_C (enqueued receipt_B (enqueued receipt_A fresh)))))
       = Inr (JArr [content receipt_A, content receipt_B, content receipt_C])"
    by (simp only: a list.map simp_thms)
  moreover have "list_all (\<lambda>x. well_formed (content x))
     (pendingReceipts (enqueued receipt_B (enqueued receipt_A fresh)) @ [receipt_C])"
    using wf by (simp only: q)
  ultimately show ?thesis using q by blast
qed

lemma sync_step_requests:
  "requests (sync_step outcome receipt s) = requests s @ [JSON_stringify (content receipt)]"
  by (cases outcome) (simp_all add: sync_step_def save_def Let_def)

lemma sync_loop_requests:
  "requests (sync_loop net i q s) = requests s @ map (\<lambda>r. JSON_stringify (content r)) q"
  by (induction q arbitrary: i s) (simp_all add: sync_step_requests)

text \<open>
  C7. Handling an \<open>online\<close> enters \<open>syncPendingReceipts\<close> exactly once, so a
  sequence of events enters it once for each \<open>online\<close> event in it. The pass sends one
  request for each queued entry, in the order of the queue. On an empty queue it sends
  nothing and changes nothing but the flags that \<open>handleOnline\<close> sets.
\<close>

theorem handleOnline_syncs_once:
  "sync_calls (handleOnline net s) = Suc (sync_calls s)
   \<and> sync_calls (run es s) = sync_calls s + length (filter is_online_event es)
   \<and> requests (handleOnline net s)
       = requests s @ map (\<lambda>r. JSON_stringify (content r)) (pendingReceipts s)
   \<and> handleOnline net (s\<lparr>pendingReceipts := []\<rparr>)
       = s\<lparr>pendingReceipts := [], isOnline := True,
           sync_calls := Suc (sync_calls s), body_offline := False\<rparr>"
proof -
  have "requests (handleOnline net s)
          = requests s @ map (\<lambda>r. JSON_stringify (content r)) (pendingReceipts s)"
    by (simp add: handleOnline_def syncPendingReceipts_def sync_loop_requests)
  moreover have "handleOnline net (s\<lparr>pendingReceipts := []\<rparr>)
       = s\<lparr>pendingReceipts := [], isOnline := True,
           sync_calls := Suc (sync_calls s), body_offline := False\<rparr>"
    by (simp add: handleOnline_def syncPendingReceipts_def)
  ultimately show ?thesis
    by (simp add: handleOnline_sync_calls run_sync_calls)
qed


lemma sync_step_queue:
  "pendingReceipts (sync_step outcome receipt s) =
     (if response_ok outcome then filter (\<lambda>r. address r \<noteq> address receipt) (pendingReceipts s)
      else pendingReceipts s)"
  by (cases outcome) (simp_all add: sync_step_def save_def Let_def strict_neq_def)

lemma sync_step_storage:
  "localStorage (sync_step outcome receipt s) =
     (if response_ok outcome
      then (localStorage s)(''pendingReceipts'' \<mapsto>
              serialize (filter (\<lambda>r. address r \<noteq> address receipt) (pendingReceipts s)))
      else localStorage s)"
  by (cases outcome) (simp_all add: sync_step_def save_def Let_def strict_neq_def)

lemma sync_step_in_sync:
  "persisted_in_sync s \<Longrightarrow> persisted_in_sync (sync_step outcome receipt s)"
  by (simp add: persisted_in_sync_def sync_step_queue sync_step_storage)

text \<open>
  In a pass that starts with the stored text in step with the queue, each write replaces
  the stored text by one that is not longer.
\<close>

lemma stringify_elements_filter_length:
  "length (stringify_elements (map content (filter P q)))
     \<le> length (stringify_elements (map content q))"
proof (induction q)
  case Nil
  show ?case by simp
next
  case (Cons a q)
  show ?case
    using Cons.IH by (cases "filter P q = []") auto
qed

lemma serialize_filter_length:
  "length (serialize (filter P q)) \<le> length (serialize q)"
  by (simp add: serialize_def stringify_elements_filter_length)

lemma sync_step_write_fits:
  assumes "persisted_in_sync s" and "response_ok outcome"
  shows "localStorage s ''pendingReceipts'' = Some (serialize (pendingReceipts s))
    \<and> localStorage (sync_step outcome receipt s) ''pendingReceipts''
        = Some (serialize (pendingReceipts (sync_step outcome receipt s)))
    \<and> length (serialize (pendingReceipts (sync_step outcome receipt s)))
        \<le> length (serialize (pendingReceipts s))"
  using assms
  by (simp add: persisted_in_sync_def sync_step_queue sync_step_storage serialize_filter_length)

lemma sync_loop_in_sync:
  "persisted_in_sync s \<Longrightarrow> persisted_in_sync (sync_loop net i q s)"
  by (induction q arbitrary: i s) (simp_all add: sync_step_in_sync)

lemma sync_states_in_sync:
  "persisted_in_sync s \<Longrightarrow> s' \<in> set (sync_states net i q s) \<Longrightarrow> persisted_in_sync s'"
proof (induction q arbitrary: i s)
  case Nil
  then show ?case by simp
next
  case (Cons a q)
  from Cons.prems(2) have "s' = s \<or> s' \<in> set (sync_states net (Suc i) q (sync_step (net i) a s))"
    by simp
  then show ?case
  proof
    assume "s' = s"
    with Cons.prems(1) show ?thesis by simp
  next
    assume "s' \<in> set (sync_states net (Suc i) q (sync_step (net i) a s))"
    with Cons.IH [OF sync_step_in_sync [OF Cons.prems(1)]] show ?thesis .
  qed
qed

lemma sync_states_nonempty: "sync_states net i q s \<noteq> []"
  by (cases q) simp_all

lemma sync_states_first: "sync_states net i q s ! 0 = s"
  by (cases q) simp_all

lemma sync_states_last: "last (sync_states net i q s) = sync_loop net i q s"
  by (induction q arbitrary: i s) (simp_all add: sync_states_nonempty)

lemma sync_states_length: "length (sync_states net i q s) = Suc (length q)"
  by (induction q arbitrary: i s) (auto)

lemma sync_loop_queue:
  "pendingReceipts (sync_loop net i q s) =
     filter (\<lambda>r. address r \<notin> address ` set (acknowledged net i q)) (pendingReceipts s)"
proof (induction q arbitrary: i s)
  case Nil
  show ?case by simp
next
  case (Cons a q)
  show ?case
    by (simp add: Cons.IH sync_step_queue conj_commute)
qed

lemma acknowledged_subset: "set (acknowledged net i q) \<subseteq> set q"
  by (induction q arbitrary: i) auto

lemma unacknowledged_subset: "set (unacknowledged net i q) \<subseteq> set q"
  by (induction q arbitrary: i) auto

lemma filter_acknowledged:
  "distinct (map address q) \<Longrightarrow>
     filter (\<lambda>r. address r \<notin> address ` set (acknowledged net i q)) q = unacknowledged net i q"
proof (induction q arbitrary: i)
  case Nil
  show ?case by simp
next
  case (Cons a q)
  have notin: "address a \<notin> address ` set (acknowledged net (Suc i) q)"
    using Cons.prems acknowledged_subset [of net "Suc i" q] by auto
  have rest: "filter (\<lambda>r. address r \<noteq> address a \<and> address r \<notin> address ` set (acknowledged net (Suc i) q)) q
      = filter (\<lambda>r. address r \<notin> address ` set (acknowledged net (Suc i) q)) q"
    using Cons.prems by (intro filter_cong) (auto simp: image_iff)
  show ?case
    using Cons notin rest by simp
qed


lemma sync_states_nth:
  "k < length q \<Longrightarrow>
     sync_states net i q s ! Suc k = sync_step (net (i + k)) (q ! k) (sync_states net i q s ! k)"
proof (induction q arbitrary: i s k)
  case Nil
  then show ?case by simp
next
  case (Cons a q)
  show ?case
  proof (cases k)
    case 0
    then show ?thesis by (cases q) simp_all
  next
    case (Suc j)
    with Cons.prems have "j < length q" by simp
    from Cons.IH [OF this, of "Suc i" "sync_step (net i) a s"] Suc show ?thesis by simp
  qed
qed

lemma sync_states_take:
  "k \<le> length q \<Longrightarrow> sync_states net i q s ! k = sync_loop net i (take k q) s"
proof (induction q arbitrary: i s k)
  case Nil
  then show ?case by simp
next
  case (Cons a q)
  show ?case
  proof (cases k)
    case 0
    then show ?thesis by simp
  next
    case (Suc j)
    with Cons.prems have "j \<le> length q" by simp
    from Cons.IH [OF this, of "Suc i" "sync_step (net i) a s"] Suc show ?thesis by simp
  qed
qed

lemma filter_acknowledged_take:
  assumes "distinct (map address q)" and "k \<le> length q"
  shows "filter (\<lambda>r. address r \<notin> address ` set (acknowledged net i (take k q))) q
           = unacknowledged net i (take k q) @ drop k q"
proof -
  have d: "distinct (map address (take k q) @ map address (drop k q))"
    using assms(1) by (simp only: map_append [symmetric] append_take_drop_id)
  have t: "filter (\<lambda>r. address r \<notin> address ` set (acknowledged net i (take k q))) (take k q)
      = unacknowledged net i (take k q)"
    using d by (intro filter_acknowledged) simp
  have "\<forall>x\<in>set (drop k q). address x \<notin> address ` set (acknowledged net i (take k q))"
    using d acknowledged_subset [of net i "take k q"] by auto
  then have r: "filter (\<lambda>r. address r \<notin> address ` set (acknowledged net i (take k q))) (drop k q)
      = drop k q"
    by (simp add: filter_id_conv)
  have "filter (\<lambda>r. address r \<notin> address ` set (acknowledged net i (take k q))) (take k q @ drop k q)
      = unacknowledged net i (take k q) @ drop k q"
    by (simp only: filter_append t r)
  then show ?thesis by simp
qed

lemma pass_states_queue:
  assumes "distinct (map address (pendingReceipts s))" and "k \<le> length (pendingReceipts s)"
  shows "pendingReceipts (pass_states net s ! k)
           = unacknowledged net 0 (take k (pendingReceipts s)) @ drop k (pendingReceipts s)"
  using filter_acknowledged_take [OF assms, of net 0]
  by (simp add: sync_states_take [OF assms(2)] sync_loop_queue)

lemma filter_address_remove1:
  "distinct (map address q) \<Longrightarrow> \<forall>x\<in>set q. address x = address r \<longrightarrow> x = r \<Longrightarrow>
     filter (\<lambda>x. address x \<noteq> address r) q = remove1 r q"
proof (induction q)
  case Nil
  show ?case by simp
next
  case (Cons a q)
  show ?case
  proof (cases "a = r")
    case True
    with Cons.prems have "\<forall>x\<in>set q. address x \<noteq> address r" by (auto simp: image_iff)
    then have "filter (\<lambda>x. address x \<noteq> address r) q = q" by (simp add: filter_id_conv)
    with True show ?thesis by simp
  next
    case False
    with Cons.prems have "address a \<noteq> address r" by auto
    with Cons False show ?thesis by simp
  qed
qed

text \<open>
  C2, as stated, fails when the same object is queued twice: the first success removes
  every occurrence of it, and the failure of the second request leaves nothing to retry.
  Here \<open>A\<close> is stored twice, the first request succeeds and the second is rejected: the
  specification expects \<open>[A]\<close>, the queue and the stored text are empty.
\<close>

theorem syncPendingReceipts_aliased_counterexample:
  "persisted_in_sync (enqueued receipt_A (enqueued receipt_A fresh))
   \<and> unacknowledged (\<lambda>i. if i = 0 then Response 200 else Rejected) 0
        (pendingReceipts (enqueued receipt_A (enqueued receipt_A fresh)))
       = [receipt_A]
   \<and> pendingReceipts (syncPendingReceipts (\<lambda>i. if i = 0 then Response 200 else Rejected)
        (enqueued receipt_A (enqueued receipt_A fresh))) = []
   \<and> localStorage (syncPendingReceipts (\<lambda>i. if i = 0 then Response 200 else Rejected)
        (enqueued receipt_A (enqueued receipt_A fresh))) ''pendingReceipts''
       = Some (str ''[]'')"
  by (simp add: enqueued_eq showOfflineNotification_def save_def serialize_def
      persisted_in_sync_def syncPendingReceipts_def sync_step_def strict_neq_def str_def)

text \<open>
  C2, amended. When the entries of the queue are different objects and the stored text is
  the serialization of the queue, then after one pass the queue in memory holds exactly
  the entries whose request failed (rejected, or answered with a status outside 200 to
  299), in their original order, and the stored text is the serialization of that queue;
  when the receipts are values that JSON text can carry, loading returns that queue.
  So the stored queue is empty when every request succeeds, and it is \<open>[B]\<close> for the
  queue \<open>[A, B, C]\<close> when only the request of \<open>B\<close> fails.
\<close>

theorem syncPendingReceipts_keeps_unacknowledged:
  assumes "distinct (map address (pendingReceipts s))" and "persisted_in_sync s"
  shows "pendingReceipts (syncPendingReceipts net s) = unacknowledged net 0 (pendingReceipts s)
    \<and> localStorage (syncPendingReceipts net s) ''pendingReceipts''
        = Some (serialize (unacknowledged net 0 (pendingReceipts s)))
    \<and> (list_all (\<lambda>r. well_formed (content r)) (pendingReceipts s) \<longrightarrow>
         load (localStorage (syncPendingReceipts net s))
           = Inr (JArr (map content (unacknowledged net 0 (pendingReceipts s)))))"
proof -
  have q: "pendingReceipts (syncPendingReceipts net s) = unacknowledged net 0 (pendingReceipts s)"
    by (simp add: syncPendingReceipts_def sync_loop_queue filter_acknowledged [OF assms(1)])
  have "persisted_in_sync (s\<lparr>sync_calls := Suc (sync_calls s)\<rparr>)"
    using assms(2) by (simp add: persisted_in_sync_def)
  then have "persisted_in_sync (syncPendingReceipts net s)"
    unfolding syncPendingReceipts_def by (rule sync_loop_in_sync)
  then have st: "localStorage (syncPendingReceipts net s) ''pendingReceipts''
        = Some (serialize (unacknowledged net 0 (pendingReceipts s)))"
    using q by (simp add: persisted_in_sync_def)
  have "list_all (\<lambda>r. well_formed (content r)) (pendingReceipts s) \<longrightarrow>
         load (localStorage (syncPendingReceipts net s))
           = Inr (JArr (map content (unacknowledged net 0 (pendingReceipts s))))"
  proof
    assume w: "list_all (\<lambda>r. well_formed (content r)) (pendingReceipts s)"
    have "list_all (\<lambda>r. well_formed (content r)) (unacknowledged net 0 (pendingReceipts s))"
      using w unacknowledged_subset [of net 0 "pendingReceipts s"]
      by (auto simp: list_all_iff)
    from load_serialized [of "unacknowledged net 0 (pendingReceipts s)"
        "localStorage (syncPendingReceipts net s)", OF this st]
    show "load (localStorage (syncPendingReceipts net s))
           = Inr (JArr (map content (unacknowledged net 0 (pendingReceipts s))))" .
  qed
  with q st show ?thesis by blast
qed

theorem syncPendingReceipts_keeps_unacknowledged_witness:
  "distinct (map address (pendingReceipts queue_ABC))
   \<and> persisted_in_sync queue_ABC
   \<and> list_all (\<lambda>r. well_formed (content r)) (pendingReceipts queue_ABC)
   \<and> pendingReceipts (syncPendingReceipts only_B_fails queue_ABC) = [receipt_B]
   \<and> localStorage (syncPendingReceipts only_B_fails queue_ABC) ''pendingReceipts''
       = Some (serialize [receipt_B])
   \<and> load (localStorage (syncPendingReceipts only_B_fails queue_ABC))
       = Inr (JArr [content receipt_B])
   \<and> pendingReceipts (syncPendingReceipts (\<lambda>i. Response 200) queue_ABC) = []
   \<and> localStorage (syncPendingReceipts (\<lambda>i. Response 200) queue_ABC) ''pendingReceipts''
       = Some (str ''[]'')
   \<and> load (localStorage (syncPendingReceipts (\<lambda>i. Response 200) queue_ABC)) = Inr (JArr [])"
proof -
  have d: "distinct (map address (pendingReceipts queue_ABC))"
    by (simp add: enqueued_eq showOfflineNotification_def save_def)
  have p: "persisted_in_sync queue_ABC"
    by (simp add: enqueued_eq showOfflineNotification_def save_def persisted_in_sync_def)
  have q: "pendingReceipts queue_ABC = [receipt_A, receipt_B, receipt_C]"
    by (simp add: enqueued_eq showOfflineNotification_def save_def)
  have w: "list_all (\<lambda>r. well_formed (content r)) [receipt_A, receipt_B, receipt_C]"
    by (simp add: str_def define_property_def array_index_def is_digit_def)
  have u1: "unacknowledged only_B_fails 0 [receipt_A, receipt_B, receipt_C] = [receipt_B]"
    by simp
  have u2: "unacknowledged (\<lambda>i. Response 200) 0 [receipt_A, receipt_B, receipt_C] = []"
    by simp
  have e: "serialize [] = str ''[]''"
    by (simp add: serialize_def str_def)
  have m1: "map content [receipt_B] = [content receipt_B]" and m2: "map content [] = []"
    by simp_all
  have r1: "pendingReceipts (syncPendingReceipts only_B_fails queue_ABC) = [receipt_B]
     \<and> localStorage (syncPendingReceipts only_B_fails queue_ABC) ''pendingReceipts''
         = Some (serialize [receipt_B])
     \<and> load (localStorage (syncPendingReceipts only_B_fails queue_ABC))
         = Inr (JArr [content receipt_B])"
    using syncPendingReceipts_keeps_unacknowledged [OF d p, of only_B_fails] w
    by (simp only: q u1 m1 simp_thms)
  have r2: "pendingReceipts (syncPendingReceipts (\<lambda>i. Response 200) queue_ABC) = []
     \<and> localStorage (syncPendingReceipts (\<lambda>i. Response 200) queue_ABC) ''pendingReceipts''
         = Some (str ''[]'')
     \<and> load (localStorage (syncPendingReceipts (\<lambda>i. Response 200) queue_ABC)) = Inr (JArr [])"
    using syncPendingReceipts_keeps_unacknowledged [OF d p, of "\<lambda>i. Response 200"] w
    by (simp only: q u2 e m2 simp_thms)
  have w': "list_all (\<lambda>r. well_formed (content r)) (pendingReceipts queue_ABC)"
    using w by (simp only: q)
  from d p w' r1 r2 show ?thesis by blast
qed

text \<open>
  C4, as stated, fails in two ways. When the same object is queued twice, the success of
  its first request removes both entries, not that entry only: the queue \<open>[A, A]\<close> is
  empty after the first step, where the removal of one entry leaves \<open>[A]\<close>. And the
  stored text is the serialization of the queue at the boundaries of a pass only if it is
  so when the pass starts: after a call of \<open>storeReceiptOffline\<close> whose write was
  refused, the queue in memory holds the receipt and the storage holds nothing, and a
  pass whose request fails leaves both as they are.
\<close>

theorem sync_step_removes_aliases_counterexample:
  "persisted_in_sync (enqueued receipt_A (enqueued receipt_A fresh))
   \<and> pendingReceipts (pass_states (\<lambda>i. Response 200) (enqueued receipt_A (enqueued receipt_A fresh)) ! 0)
       = [receipt_A, receipt_A]
   \<and> pendingReceipts (pass_states (\<lambda>i. Response 200) (enqueued receipt_A (enqueued receipt_A fresh)) ! Suc 0)
       = []
   \<and> localStorage (pass_states (\<lambda>i. Response 200) (enqueued receipt_A (enqueued receipt_A fresh)) ! Suc 0)
        ''pendingReceipts'' = Some (str ''[]'')
   \<and> remove1 receipt_A [receipt_A, receipt_A] = [receipt_A]
   \<and> last (pass_states (\<lambda>i. Response 200) (enqueued receipt_A (enqueued receipt_A fresh)))
       = syncPendingReceipts (\<lambda>i. Response 200) (enqueued receipt_A (enqueued receipt_A fresh))
   \<and> pendingReceipts (state_after (storeReceiptOffline QuotaExceeded receipt_A fresh)) = [receipt_A]
   \<and> \<not> persisted_in_sync
         (pass_states (\<lambda>i. Rejected) (state_after (storeReceiptOffline QuotaExceeded receipt_A fresh)) ! Suc 0)
   \<and> pendingReceipts
         (pass_states (\<lambda>i. Rejected) (state_after (storeReceiptOffline QuotaExceeded receipt_A fresh)) ! Suc 0)
       = [receipt_A]
   \<and> load (localStorage
         (pass_states (\<lambda>i. Rejected) (state_after (storeReceiptOffline QuotaExceeded receipt_A fresh)) ! Suc 0))
       = Inr (JArr [])"
  by (simp add: enqueued_eq storeReceiptOffline_def setItem_def showOfflineNotification_def save_def
      serialize_def persisted_in_sync_def syncPendingReceipts_def sync_step_def strict_neq_def str_def
      load_def JSON_parse_def parse_value.simps skip_ws_def is_json_ws_def)

text \<open>
  C4, amended. Take a queue whose entries are different objects and whose stored text is
  the serialization of the queue when \<open>syncPendingReceipts\<close> is called. The boundary
  states of the pass are the state before the first entry and the state after each
  entry, the last being the state in which \<open>syncPendingReceipts\<close> leaves off; the state
  after entry \<open>k\<close> is the state before it changed by the loop body for that entry
  alone. Before entry \<open>k\<close> the queue holds the entries before \<open>k\<close> whose request failed,
  followed by the entries from \<open>k\<close> on. When the request of entry \<open>k\<close> succeeds, the
  step removes that entry and no other, and writes the new queue to the storage in the
  same step, before the next request; when it fails, queue and storage stay as they
  are. At both boundaries the stored text is the serialization of the queue in memory,
  and when the receipts are values that JSON text can carry, loading from the storage
  returns that queue: a removal made before the pass is cut short is not lost. For the
  queue \<open>[A, B, C]\<close> where the request of \<open>A\<close> succeeds, queue and storage hold
  \<open>[B, C]\<close> after the first step.
\<close>

theorem sync_step_persists_each_removal:
  assumes "distinct (map address (pendingReceipts s))"
    and "persisted_in_sync s"
    and "k < length (pendingReceipts s)"
  shows "last (pass_states net s) = syncPendingReceipts net s
   \<and> length (pass_states net s) = Suc (length (pendingReceipts s))
   \<and> pendingReceipts (pass_states net s ! 0) = pendingReceipts s
   \<and> localStorage (pass_states net s ! 0) = localStorage s
   \<and> pass_states net s ! Suc k
       = sync_step (net k) (pendingReceipts s ! k) (pass_states net s ! k)
   \<and> pendingReceipts (pass_states net s ! k)
       = unacknowledged net 0 (take k (pendingReceipts s)) @ drop k (pendingReceipts s)
   \<and> pendingReceipts (pass_states net s ! Suc k)
       = unacknowledged net 0 (take (Suc k) (pendingReceipts s)) @ drop (Suc k) (pendingReceipts s)
   \<and> pendingReceipts (pass_states net s ! Suc k) =
       (if response_ok (net k)
        then remove1 (pendingReceipts s ! k) (pendingReceipts (pass_states net s ! k))
        else pendingReceipts (pass_states net s ! k))
   \<and> pendingReceipts s ! k \<in> set (pendingReceipts (pass_states net s ! k))
   \<and> (pendingReceipts s ! k \<in> set (pendingReceipts (pass_states net s ! Suc k))
        \<longleftrightarrow> \<not> response_ok (net k))
   \<and> localStorage (pass_states net s ! Suc k) =
       (if response_ok (net k)
        then (localStorage (pass_states net s ! k))
               (''pendingReceipts'' \<mapsto> serialize (pendingReceipts (pass_states net s ! Suc k)))
        else localStorage (pass_states net s ! k))
   \<and> persisted_in_sync (pass_states net s ! k)
   \<and> persisted_in_sync (pass_states net s ! Suc k)
   \<and> (list_all (\<lambda>r. well_formed (content r)) (pendingReceipts s) \<longrightarrow>
        load (localStorage (pass_states net s ! k))
          = Inr (JArr (map content (pendingReceipts (pass_states net s ! k))))
        \<and> load (localStorage (pass_states net s ! Suc k))
          = Inr (JArr (map content (pendingReceipts (pass_states net s ! Suc k)))))"
proof -
  let ?q = "pendingReceipts s"
  let ?s0 = "s\<lparr>sync_calls := Suc (sync_calls s)\<rparr>"
  let ?S = "pass_states net s"
  note d = assms(1) and k = assms(3)
  from k have k': "k \<le> length ?q" and sk: "Suc k \<le> length ?q" by simp_all
  have c1: "last ?S = syncPendingReceipts net s"
    by (simp add: sync_states_last syncPendingReceipts_def)
  have c2: "length ?S = Suc (length ?q)"
    by (simp add: sync_states_length)
  have c3: "pendingReceipts (?S ! 0) = ?q" and c4: "localStorage (?S ! 0) = localStorage s"
    by (simp_all add: sync_states_first)
  have step: "?S ! Suc k = sync_step (net k) (?q ! k) (?S ! k)"
    using sync_states_nth [OF k, of net 0 ?s0] by simp
  have qk: "pendingReceipts (?S ! k) = unacknowledged net 0 (take k ?q) @ drop k ?q"
    by (rule pass_states_queue [OF d k'])
  have qsk: "pendingReceipts (?S ! Suc k)
      = unacknowledged net 0 (take (Suc k) ?q) @ drop (Suc k) ?q"
    by (rule pass_states_queue [OF d sk])
  have dq: "distinct ?q"
    using d by (simp add: distinct_map)
  have dk: "distinct (map address (pendingReceipts (?S ! k)))"
  proof -
    have "pendingReceipts (?S ! k)
        = filter (\<lambda>r. address r \<notin> address ` set (acknowledged net 0 (take k ?q))) ?q"
      by (simp add: sync_states_take [OF k'] sync_loop_queue)
    then show ?thesis using d by (simp add: distinct_map_filter)
  qed
  have dr: "drop k ?q = ?q ! k # drop (Suc k) ?q"
    using k by (simp add: Cons_nth_drop_Suc)
  have mem: "?q ! k \<in> set (pendingReceipts (?S ! k))"
    by (simp add: qk dr)
  have sub: "set (pendingReceipts (?S ! k)) \<subseteq> set ?q"
    using unacknowledged_subset [of net 0 "take k ?q"] set_take_subset [of k ?q]
      set_drop_subset [of k ?q] by (auto simp: qk)
  have uniq: "\<forall>x\<in>set (pendingReceipts (?S ! k)). address x = address (?q ! k) \<longrightarrow> x = ?q ! k"
    using d k sub by (auto simp: distinct_map inj_on_def)
  have filt: "pendingReceipts (?S ! Suc k) =
       (if response_ok (net k)
        then filter (\<lambda>x. address x \<noteq> address (?q ! k)) (pendingReceipts (?S ! k))
        else pendingReceipts (?S ! k))"
    by (simp add: step sync_step_queue)
  have rem: "pendingReceipts (?S ! Suc k) =
       (if response_ok (net k)
        then remove1 (?q ! k) (pendingReceipts (?S ! k))
        else pendingReceipts (?S ! k))"
    using filt filter_address_remove1 [OF dk uniq] by simp
  have dk': "distinct (pendingReceipts (?S ! k))"
    using dk by (simp add: distinct_map)
  have gone: "?q ! k \<in> set (pendingReceipts (?S ! Suc k)) \<longleftrightarrow> \<not> response_ok (net k)"
    using rem mem dk' by (cases "response_ok (net k)") simp_all
  have storage: "localStorage (?S ! Suc k) =
       (if response_ok (net k)
        then (localStorage (?S ! k))(''pendingReceipts'' \<mapsto> serialize (pendingReceipts (?S ! Suc k)))
        else localStorage (?S ! k))"
    by (simp add: filt) (simp add: step sync_step_storage)
  have p0: "persisted_in_sync ?s0"
    using assms(2) by (simp add: persisted_in_sync_def)
  have "?S ! k \<in> set ?S" "?S ! Suc k \<in> set ?S"
    using k by (simp_all add: sync_states_length)
  then have pk: "persisted_in_sync (?S ! k)" and psk: "persisted_in_sync (?S ! Suc k)"
    using sync_states_in_sync [OF p0] by blast+
  have ld: "list_all (\<lambda>r. well_formed (content r)) ?q \<longrightarrow>
        load (localStorage (?S ! k)) = Inr (JArr (map content (pendingReceipts (?S ! k))))
        \<and> load (localStorage (?S ! Suc k)) = Inr (JArr (map content (pendingReceipts (?S ! Suc k))))"
  proof
    assume w: "list_all (\<lambda>r. well_formed (content r)) ?q"
    have sub': "set (pendingReceipts (?S ! Suc k)) \<subseteq> set ?q"
      using rem sub set_remove1_subset [of "?q ! k" "pendingReceipts (?S ! k)"]
      by (cases "response_ok (net k)") auto
    have wk: "list_all (\<lambda>r. well_formed (content r)) (pendingReceipts (?S ! k))"
      using w sub by (auto simp: list_all_iff)
    have wsk: "list_all (\<lambda>r. well_formed (content r)) (pendingReceipts (?S ! Suc k))"
      using w sub' by (auto simp: list_all_iff)
    from pk have sk: "localStorage (?S ! k) ''pendingReceipts'' = Some (serialize (pendingReceipts (?S ! k)))"
      by (simp only: persisted_in_sync_def)
    from psk have ssk: "localStorage (?S ! Suc k) ''pendingReceipts''
        = Some (serialize (pendingReceipts (?S ! Suc k)))"
      by (simp only: persisted_in_sync_def)
    from load_serialized [of "pendingReceipts (?S ! k)" "localStorage (?S ! k)", OF wk sk]
      load_serialized [of "pendingReceipts (?S ! Suc k)" "localStorage (?S ! Suc k)", OF wsk ssk]
    show "load (localStorage (?S ! k)) = Inr (JArr (map content (pendingReceipts (?S ! k))))
        \<and> load (localStorage (?S ! Suc k)) = Inr (JArr (map content (pendingReceipts (?S ! Suc k))))"
      by (rule conjI)
  qed
  from c1 c2 c3 c4 step qk qsk rem mem gone storage pk psk ld show ?thesis
    by (intro conjI)
qed

theorem sync_step_persists_each_removal_witness:
  "distinct (map address (pendingReceipts queue_ABC))
   \<and> persisted_in_sync queue_ABC
   \<and> 0 < length (pendingReceipts queue_ABC)
   \<and> list_all (\<lambda>r. well_formed (content r)) (pendingReceipts queue_ABC)
   \<and> response_ok (only_B_fails 0)
   \<and> pendingReceipts (pass_states only_B_fails queue_ABC ! 0) = [receipt_A, receipt_B, receipt_C]
   \<and> pendingReceipts (pass_states only_B_fails queue_ABC ! Suc 0) = [receipt_B, receipt_C]
   \<and> persisted_in_sync (pass_states only_B_fails queue_ABC ! Suc 0)
   \<and> load (localStorage (pass_states only_B_fails queue_ABC ! Suc 0))
       = Inr (JArr [content receipt_B, content receipt_C])"
proof -
  have d: "distinct (map address (pendingReceipts queue_ABC))"
    by (simp add: enqueued_eq showOfflineNotification_def save_def)
  have p: "persisted_in_sync queue_ABC"
    by (simp add: enqueued_eq showOfflineNotification_def save_def persisted_in_sync_def)
  have q: "pendingReceipts queue_ABC = [receipt_A, receipt_B, receipt_C]"
    by (simp add: enqueued_eq showOfflineNotification_def save_def)
  have k: "0 < length (pendingReceipts queue_ABC)"
    by (simp add: q)
  have "list_all (\<lambda>r. well_formed (content r)) [receipt_A, receipt_B, receipt_C]"
    by (simp add: str_def define_property_def array_index_def is_digit_def)
  then have w: "list_all (\<lambda>r. well_formed (content r)) (pendingReceipts queue_ABC)"
    by (simp only: q)
  have o: "response_ok (only_B_fails 0)"
    by simp
  note t = sync_step_persists_each_removal [OF d p k, of only_B_fails]
  from t have a0: "pendingReceipts (pass_states only_B_fails queue_ABC ! 0) = pendingReceipts queue_ABC"
    by blast
  from t have a1: "pendingReceipts (pass_states only_B_fails queue_ABC ! Suc 0)
      = unacknowledged only_B_fails 0 (take (Suc 0) (pendingReceipts queue_ABC))
          @ drop (Suc 0) (pendingReceipts queue_ABC)"
    by blast
  from t have b: "persisted_in_sync (pass_states only_B_fails queue_ABC ! Suc 0)"
    by blast
  from t w have c: "load (localStorage (pass_states only_B_fails queue_ABC ! Suc 0))
      = Inr (JArr (map content (pendingReceipts (pass_states only_B_fails queue_ABC ! Suc 0))))"
    by blast
  have u: "unacknowledged only_B_fails 0 (take (Suc 0) (pendingReceipts queue_ABC))
          @ drop (Suc 0) (pendingReceipts queue_ABC) = [receipt_B, receipt_C]"
    by (simp add: q)
  from a0 have a0': "pendingReceipts (pass_states only_B_fails queue_ABC ! 0)
      = [receipt_A, receipt_B, receipt_C]"
    by (simp only: q)
  from a1 have a1': "pendingReceipts (pass_states only_B_fails queue_ABC ! Suc 0)
      = [receipt_B, receipt_C]"
    by (simp only: u)
  from c have c': "load (localStorage (pass_states only_B_fails queue_ABC ! Suc 0))
       = Inr (JArr [content receipt_B, content receipt_C])"
    by (simp only: a1' list.map)
  from d p k w o a0' a1' b c' show ?thesis by (intro conjI)
qed


lemma save_in_sync: "persisted_in_sync (save s)"
  by (simp add: persisted_in_sync_def save_def)

lemma storeReceiptOffline_in_sync: "persisted_in_sync (enqueued r s)"
  by (simp add: persisted_in_sync_def enqueued_eq showOfflineNotification_def save_def)

lemma storeReceiptOffline_queue:
  "pendingReceipts (enqueued r s) = pendingReceipts s @ [r]"
  by (simp add: enqueued_eq showOfflineNotification_def save_def)

lemma fold_storeReceiptOffline_queue:
  "pendingReceipts (fold enqueued rs s) = pendingReceipts s @ rs"
  by (induction rs arbitrary: s) (simp_all add: storeReceiptOffline_queue)

lemma fold_storeReceiptOffline_in_sync:
  "rs \<noteq> [] \<Longrightarrow> persisted_in_sync (fold enqueued rs s)"
proof (induction rs arbitrary: s rule: rev_induct)
  case Nil
  then show ?case by simp
next
  case (snoc r rs)
  show ?case by (simp add: storeReceiptOffline_in_sync)
qed

text \<open>
  C3. Let the receipts be values that JSON text can carry. Loading after saving returns
  the entries of the queue in memory, in their order. After any sequence of calls of
  \<open>storeReceiptOffline\<close> whose writes the storage accepts, one at least, the queue in
  memory is the old queue followed by the receipts in the order of the calls, and
  loading returns exactly these entries in this order. Saving what was loaded writes the text that is stored already, so the
  stored queue does not change.
\<close>

theorem load_after_save:
  "list_all (\<lambda>r. well_formed (content r)) (pendingReceipts s @ rs) \<longrightarrow>
     load (localStorage (save s)) = Inr (JArr (map content (pendingReceipts s)))
     \<and> (rs \<noteq> [] \<longrightarrow>
          pendingReceipts (fold enqueued rs s) = pendingReceipts s @ rs
          \<and> load (localStorage (fold enqueued rs s))
              = Inr (JArr (map content (pendingReceipts s @ rs))))
     \<and> (\<forall>v. load (localStorage (save s)) = Inr v \<longrightarrow>
          (localStorage (save s))(''pendingReceipts'' \<mapsto> JSON_stringify v) = localStorage (save s))"
proof
  assume w: "list_all (\<lambda>r. well_formed (content r)) (pendingReceipts s @ rs)"
  then have ws: "list_all (\<lambda>r. well_formed (content r)) (pendingReceipts s)" by simp
  have a: "load (localStorage (save s)) = Inr (JArr (map content (pendingReceipts s)))"
    by (rule load_serialized [OF ws]) (simp add: save_def)
  have b: "rs \<noteq> [] \<longrightarrow>
          pendingReceipts (fold enqueued rs s) = pendingReceipts s @ rs
          \<and> load (localStorage (fold enqueued rs s))
              = Inr (JArr (map content (pendingReceipts s @ rs)))"
  proof
    assume n: "rs \<noteq> []"
    have q: "pendingReceipts (fold enqueued rs s) = pendingReceipts s @ rs"
      by (rule fold_storeReceiptOffline_queue)
    have "localStorage (fold enqueued rs s) ''pendingReceipts''
        = Some (serialize (pendingReceipts s @ rs))"
      using fold_storeReceiptOffline_in_sync [OF n, of s] by (simp add: persisted_in_sync_def q)
    from load_serialized [of "pendingReceipts s @ rs" "localStorage (fold enqueued rs s)", OF w this] q
    show "pendingReceipts (fold enqueued rs s) = pendingReceipts s @ rs
          \<and> load (localStorage (fold enqueued rs s))
              = Inr (JArr (map content (pendingReceipts s @ rs)))" by simp
  qed
  have c: "\<forall>v. load (localStorage (save s)) = Inr v \<longrightarrow>
          (localStorage (save s))(''pendingReceipts'' \<mapsto> JSON_stringify v) = localStorage (save s)"
    unfolding a by (auto simp: save_def serialize_def)
  from a b c show "load (localStorage (save s)) = Inr (JArr (map content (pendingReceipts s)))
     \<and> (rs \<noteq> [] \<longrightarrow>
          pendingReceipts (fold enqueued rs s) = pendingReceipts s @ rs
          \<and> load (localStorage (fold enqueued rs s))
              = Inr (JArr (map content (pendingReceipts s @ rs))))
     \<and> (\<forall>v. load (localStorage (save s)) = Inr v \<longrightarrow>
          (localStorage (save s))(''pendingReceipts'' \<mapsto> JSON_stringify v) = localStorage (save s))"
    by blast
qed

theorem load_after_save_witness:
  "list_all (\<lambda>r. well_formed (content r))
     (pendingReceipts fresh @ [Object 201 tea_receipt, receipt_B])
   \<and> [Object 201 tea_receipt, receipt_B] \<noteq> []
   \<and> load (localStorage (fold enqueued [Object 201 tea_receipt, receipt_B] fresh))
       = Inr (JArr [tea_receipt, content receipt_B])
   \<and> load (localStorage (save fresh)) = Inr (JArr [])"
proof -
  have w: "list_all (\<lambda>r. well_formed (content r))
     (pendingReceipts fresh @ [Object 201 tea_receipt, receipt_B])"
    using tea_receipt_well_formed
    by (simp add: str_def define_property_def array_index_def is_digit_def)
  from load_after_save [of fresh "[Object 201 tea_receipt, receipt_B]"] w
  have "load (localStorage (fold enqueued [Object 201 tea_receipt, receipt_B] fresh))
       = Inr (JArr (map content (pendingReceipts fresh @ [Object 201 tea_receipt, receipt_B])))
     \<and> load (localStorage (save fresh)) = Inr (JArr (map content (pendingReceipts fresh)))"
    by blast
  then have "load (localStorage (fold enqueued [Object 201 tea_receipt, receipt_B] fresh))
       = Inr (JArr [tea_receipt, content receipt_B])
     \<and> load (localStorage (save fresh)) = Inr (JArr [])"
    by simp
  with w show ?thesis by simp
qed


section \<open>Properties of the live dashboard\<close>

lemma children_all_elements:
  "\<forall>n\<in>set ns. n \<noteq> NonElement \<Longrightarrow> length (children ns) = length ns"
  by (induction ns rule: children.induct) simp_all

lemma addLiveActivity_bound_elements:
  "\<forall>n\<in>set ns. n \<noteq> NonElement \<Longrightarrow> length (children ns) \<le> 10 \<Longrightarrow>
     length (children (addLiveActivity e ns)) \<le> 10
     \<and> (\<forall>n\<in>set (addLiveActivity e ns). n \<noteq> NonElement)"
proof -
  assume a: "\<forall>n\<in>set ns. n \<noteq> NonElement" and b: "length (children ns) \<le> 10"
  have c: "\<forall>n\<in>set (butlast (Element e # ns)). n \<noteq> NonElement"
    using a by (auto dest: in_set_butlastD)
  have "length (children (butlast (Element e # ns))) = length (butlast (Element e # ns))"
    by (rule children_all_elements [OF c])
  moreover have "length (children ns) = length ns" by (rule children_all_elements [OF a])
  ultimately show ?thesis using a b c by (auto simp: addLiveActivity_def Let_def)
qed

text \<open>
  C10. The bound of 10 items is not kept when the last child of the container is not an
  element. Starting from a container that holds one text node (the white space between
  its tags), eleven calls leave eleven items: the eleventh call removes the text node
  and no item.
\<close>

theorem addLiveActivity_text_node_eleven:
  "children (fold addLiveActivity [1, 2, 3, 4, 5, 6, 7, 8, 9, 10, 11 :: nat] [NonElement])
     = [11, 10, 9, 8, 7, 6, 5, 4, 3, 2, 1]
   \<and> length (children (fold addLiveActivity [1, 2, 3, 4, 5, 6, 7, 8, 9, 10, 11 :: nat] [NonElement])) = 11"
  by (simp add: addLiveActivity_def)


section \<open>Properties of the receipt form\<close>

lemma validate_row_values:
  "validate_row pf row valid its = (valid1, its1, row1) \<Longrightarrow> row_values row1 = row_values row"
  by (auto simp: validate_row_def row_values_def Let_def split: if_splits)

lemma validate_row_result:
  "fst (validate_row pf row valid its) = (valid \<and> \<not> row_invalid pf row)
   \<and> fst (snd (validate_row pf row valid its))
        = (if row_invalid pf row then its else its @ [item_of pf row])"
  by (simp add: validate_row_def row_invalid_def item_of_def Let_def)

lemma validate_rows_result:
  "fst (validate_rows pf rows valid its) = (valid \<and> (\<forall>row\<in>set rows. \<not> row_invalid pf row))
   \<and> fst (snd (validate_rows pf rows valid its))
        = its @ map (item_of pf) (filter (\<lambda>row. \<not> row_invalid pf row) rows)
   \<and> map row_values (snd (snd (validate_rows pf rows valid its))) = map row_values rows"
proof (induction rows arbitrary: valid its)
  case Nil
  show ?case by simp
next
  case (Cons row rows)
  obtain v1 i1 r1 where s: "validate_row pf row valid its = (v1, i1, r1)"
    by (cases "validate_row pf row valid its") auto
  obtain v2 i2 r2 where t: "validate_rows pf rows v1 i1 = (v2, i2, r2)"
    by (cases "validate_rows pf rows v1 i1") auto
  from validate_row_result [of pf row valid its] s
  have a: "v1 = (valid \<and> \<not> row_invalid pf row)"
    and b: "i1 = (if row_invalid pf row then its else its @ [item_of pf row])" by simp_all
  from Cons.IH [of v1 i1] t
  have c: "v2 = (v1 \<and> (\<forall>row\<in>set rows. \<not> row_invalid pf row))"
    and d: "i2 = i1 @ map (item_of pf) (filter (\<lambda>row. \<not> row_invalid pf row) rows)"
    and e: "map row_values r2 = map row_values rows" by simp_all
  from validate_row_values [OF s] have f: "row_values r1 = row_values row" .
  have u: "validate_rows pf (row # rows) valid its = (v2, i2, r1 # r2)"
    by (simp add: s t)
  show ?case
    unfolding u using a b c d e f by auto
qed

lemma collect_items_result:
  "collect_items pf rows valid its =
     (valid \<and> (\<forall>row\<in>set rows. \<not> row_invalid pf row),
      its @ map (item_of pf) (filter (\<lambda>row. \<not> row_invalid pf row) rows))"
  by (induction rows arbitrary: valid its) (auto simp: row_invalid_def item_of_def Let_def)

lemma validateForm_result:
  "validateForm pf rows =
     (\<forall>row\<in>set rows. \<not> row_invalid pf row,
      map (item_of pf) (filter (\<lambda>row. \<not> row_invalid pf row) rows),
      snd (snd (validateForm pf rows)))"
  using validate_rows_result [of pf rows True "[]"]
  by (simp add: validateForm_def prod_eq_iff)

lemma validateForm_values:
  "map row_values (snd (snd (validateForm pf rows))) = map row_values rows"
  using validate_rows_result [of pf rows True "[]"] by (simp add: validateForm_def)

lemma all_valid_items:
  "\<forall>row\<in>set rows. \<not> row_invalid pf row \<Longrightarrow>
     map (item_of pf) (filter (\<lambda>row. \<not> row_invalid pf row) rows) = map (item_of pf) rows"
  by (simp add: filter_id_conv)

lemma form_accepted_iff:
  "form_accepted pf rows = ((\<forall>row\<in>set rows. \<not> row_invalid pf row) \<and> rows \<noteq> [])"
  by (simp add: form_accepted_def row_invalid_def Let_def)

lemma generateReceipt_cases:
  "generateReceipt pf outcome p =
     (if form_accepted pf (item_rows p) then
        (case outcome of
           Created receipt_id \<Rightarrow>
             p\<lparr>item_rows := snd (snd (validateForm pf (item_rows p))),
               posted := posted p @ [build_receiptData p (map (item_of pf) (item_rows p))],
               modal_displayed := True, saved_receiptId := Some receipt_id,
               button_innerHTML := str ''Generate ETR Receipt'', button_disabled := False\<rparr>
         | Refused error \<Rightarrow>
             p\<lparr>item_rows := snd (snd (validateForm pf (item_rows p))),
               posted := posted p @ [build_receiptData p (map (item_of pf) (item_rows p))],
               alerts := alerts p @ [str ''Error generating receipt: '' @ error],
               button_innerHTML := str ''Generate ETR Receipt'', button_disabled := False\<rparr>
         | Failed message \<Rightarrow>
             p\<lparr>item_rows := snd (snd (validateForm pf (item_rows p))),
               posted := posted p @ [build_receiptData p (map (item_of pf) (item_rows p))],
               alerts := alerts p @ [str ''Error generating receipt: '' @ message],
               button_innerHTML := str ''Generate ETR Receipt'', button_disabled := False\<rparr>)
      else
        p\<lparr>item_rows := snd (snd (validateForm pf (item_rows p))),
          alerts := alerts p @
            [str ''Please fill in all item fields correctly. Product name, quantity (>0), and price (''
             @ [0x2265] @ str ''0) are required.'']\<rparr>)"
proof (cases "form_accepted pf (item_rows p)")
  case True
  then have a: "\<forall>row\<in>set (item_rows p). \<not> row_invalid pf row" and b: "item_rows p \<noteq> []"
    by (simp_all add: form_accepted_iff)
  have v: "validateForm pf (item_rows p) =
      (True, map (item_of pf) (item_rows p), snd (snd (validateForm pf (item_rows p))))"
    using validateForm_result [of pf "item_rows p"] a all_valid_items [OF a] by simp
  show ?thesis
    using True b
    by (subst generateReceipt_def, subst v)
       (simp add: Let_def alert_def showReceipt_def build_receiptData_def split: submit_result.splits)
next
  case False
  have v: "validateForm pf (item_rows p) =
      (\<forall>row\<in>set (item_rows p). \<not> row_invalid pf row,
       map (item_of pf) (filter (\<lambda>row. \<not> row_invalid pf row) (item_rows p)),
       snd (snd (validateForm pf (item_rows p))))"
    by (rule validateForm_result)
  have c: "\<not> (\<forall>row\<in>set (item_rows p). \<not> row_invalid pf row)
       \<or> map (item_of pf) (filter (\<lambda>row. \<not> row_invalid pf row) (item_rows p)) = []"
    using False by (auto simp: form_accepted_iff)
  show ?thesis
    using False c
    by (subst generateReceipt_def, subst v) (auto simp: Let_def alert_def)
qed

lemma validate_row_borders:
  "snd (snd (validate_row pf row valid its)) =
     (if trim (item_name row) \<noteq> []
         \<and> \<not> isNaN (pf (item_quantity row)) \<and> \<not> le_zero (pf (item_quantity row))
         \<and> \<not> isNaN (pf (item_price row)) \<and> \<not> lt_zero (pf (item_price row))
      then row\<lparr>name_borderColor := [], quantity_borderColor := [], price_borderColor := []\<rparr>
      else row\<lparr>name_borderColor :=
                 (if trim (item_name row) = [] then str ''red'' else name_borderColor row),
               quantity_borderColor :=
                 (if isNaN (pf (item_quantity row)) \<or> le_zero (pf (item_quantity row))
                  then str ''red'' else quantity_borderColor row),
               price_borderColor :=
                 (if isNaN (pf (item_price row)) \<or> lt_zero (pf (item_price row))
                  then str ''red'' else price_borderColor row)\<rparr>)"
  by (simp add: validate_row_def Let_def)

lemma validate_rows_borders:
  "snd (snd (validate_rows pf rows valid its)) =
     map (\<lambda>row. snd (snd (validate_row pf row True []))) rows"
proof (induction rows arbitrary: valid its)
  case Nil
  show ?case by simp
next
  case (Cons row rows)
  obtain v1 i1 r1 where s: "validate_row pf row valid its = (v1, i1, r1)"
    by (cases "validate_row pf row valid its") auto
  obtain v2 i2 r2 where t: "validate_rows pf rows v1 i1 = (v2, i2, r2)"
    by (cases "validate_rows pf rows v1 i1") auto
  have "snd (snd (validate_row pf row valid its)) = snd (snd (validate_row pf row True []))"
    by (simp add: validate_row_borders)
  with s have a: "r1 = snd (snd (validate_row pf row True []))" by simp
  from Cons.IH [of v1 i1] t
  have b: "r2 = map (\<lambda>row. snd (snd (validate_row pf row True []))) rows" by simp
  show ?case
    by (simp add: s t a b)
qed

lemma validateForm_borders:
  "snd (snd (validateForm pf rows)) =
     map (\<lambda>row.
       if trim (item_name row) \<noteq> []
          \<and> \<not> isNaN (pf (item_quantity row)) \<and> \<not> le_zero (pf (item_quantity row))
          \<and> \<not> isNaN (pf (item_price row)) \<and> \<not> lt_zero (pf (item_price row))
       then row\<lparr>name_borderColor := [], quantity_borderColor := [], price_borderColor := []\<rparr>
       else row\<lparr>name_borderColor :=
                 (if trim (item_name row) = [] then str ''red'' else name_borderColor row),
               quantity_borderColor :=
                 (if isNaN (pf (item_quantity row)) \<or> le_zero (pf (item_quantity row))
                  then str ''red'' else quantity_borderColor row),
               price_borderColor :=
                 (if isNaN (pf (item_price row)) \<or> lt_zero (pf (item_price row))
                  then str ''red'' else price_borderColor row)\<rparr>) rows"
  unfolding validateForm_def validate_rows_borders validate_row_borders ..

lemma generateReceipt_item_rows:
  "item_rows (generateReceipt pf outcome p) = snd (snd (validateForm pf (item_rows p)))"
  by (simp add: generateReceipt_cases [of pf outcome p] split: submit_result.splits)

lemma generateReceipt_part_000_cases:
  "generateReceipt_part_000 pf outcome p =
     (if form_accepted pf (item_rows p) then
        (case outcome of
           Created receipt_id \<Rightarrow>
             p\<lparr>posted := posted p @ [build_receiptData p (map (item_of pf) (item_rows p))],
               modal_displayed := True, saved_receiptId := Some receipt_id\<rparr>
         | Refused error \<Rightarrow>
             p\<lparr>posted := posted p @ [build_receiptData p (map (item_of pf) (item_rows p))],
               alerts := alerts p @ [str ''Error generating receipt: '' @ error]\<rparr>
         | Failed message \<Rightarrow>
             p\<lparr>posted := posted p @ [build_receiptData p (map (item_of pf) (item_rows p))],
               alerts := alerts p @ [str ''Error generating receipt: '' @ message]\<rparr>)
      else p\<lparr>alerts := alerts p @ [str ''Please fill in all item fields correctly.'']\<rparr>)"
proof (cases "form_accepted pf (item_rows p)")
  case True
  then have a: "\<forall>row\<in>set (item_rows p). \<not> row_invalid pf row" and b: "item_rows p \<noteq> []"
    by (simp_all add: form_accepted_iff)
  show ?thesis
    using True b all_valid_items [OF a] a
    by (simp add: generateReceipt_part_000_def collect_items_result Let_def alert_def
        showReceipt_def split: submit_result.splits)
next
  case False
  then have c: "\<not> (\<forall>row\<in>set (item_rows p). \<not> row_invalid pf row)
       \<or> map (item_of pf) (filter (\<lambda>row. \<not> row_invalid pf row) (item_rows p)) = []"
    by (auto simp: form_accepted_iff)
  show ?thesis
    using False c
    by (auto simp: generateReceipt_part_000_def collect_items_result Let_def alert_def)
qed

lemma sample_tea_accepted: "form_accepted sample_parseFloat [tea_row]"
  by (simp add: form_accepted_def trim_def str_def is_white_space_def)

lemma sample_tea_item:
  "item_of sample_parseFloat tea_row = \<lparr>name = str ''Tea'', quantity = Finite 2, price = Finite (21 / 2)\<rparr>"
  by (simp add: item_of_def trim_def str_def is_white_space_def)

text \<open>
  C8, as stated, fails in its last part: a rejected form is not left as it was. With
  one row whose name is empty no request is sent, and the name input of the row gets a
  red border.
\<close>

theorem generateReceipt_marks_fields_counterexample:
  "\<not> form_accepted sample_parseFloat (item_rows (sample_page [unnamed_row]))
   \<and> posted (generateReceipt sample_parseFloat (Created []) (sample_page [unnamed_row])) = []
   \<and> item_rows (sample_page [unnamed_row]) = [unnamed_row]
   \<and> item_rows (generateReceipt sample_parseFloat (Created []) (sample_page [unnamed_row]))
       = [unnamed_row\<lparr>name_borderColor := str ''red''\<rparr>]
   \<and> item_rows (generateReceipt sample_parseFloat (Created []) (sample_page [unnamed_row]))
       \<noteq> item_rows (sample_page [unnamed_row])"
  by (simp add: form_accepted_def generateReceipt_def validateForm_def validate_row_def
      Let_def alert_def trim_def str_def)

text \<open>
  C8, amended. For every form state, \<open>generateReceipt\<close> sends a request only if every
  item row has a name that is not empty once trimmed, a quantity that is a number above
  zero and a price that is a number not below zero, and there is at least one valid
  item; otherwise no request is made and the values of the inputs of the rows and of the
  customer fields are left as they are, while the border colours of the rows are not: in
  a row that is not valid each field that is not valid gets a red border and the other
  borders of the row stay as they were, and in a valid row the three borders are
  cleared.

  The theorem gives more. The request is sent whenever that condition holds, and it
  carries the items of the rows. The rows come out of every call, accepted or not, with
  the borders described. Where no request is sent, the page differs from the page
  before in the rows and in the alert that is shown, and in nothing else.
\<close>

theorem generateReceipt_posts_only_accepted:
  "posted (generateReceipt pf outcome p) =
     (if form_accepted pf (item_rows p)
      then posted p @ [build_receiptData p (map (item_of pf) (item_rows p))]
      else posted p)
   \<and> map row_values (item_rows (generateReceipt pf outcome p)) = map row_values (item_rows p)
   \<and> customerName (generateReceipt pf outcome p) = customerName p
   \<and> customerPIN (generateReceipt pf outcome p) = customerPIN p
   \<and> paymentMethod (generateReceipt pf outcome p) = paymentMethod p
   \<and> item_rows (generateReceipt pf outcome p) =
       map (\<lambda>row.
         if trim (item_name row) \<noteq> []
            \<and> \<not> isNaN (pf (item_quantity row)) \<and> \<not> le_zero (pf (item_quantity row))
            \<and> \<not> isNaN (pf (item_price row)) \<and> \<not> lt_zero (pf (item_price row))
         then row\<lparr>name_borderColor := [], quantity_borderColor := [], price_borderColor := []\<rparr>
         else row\<lparr>name_borderColor :=
                   (if trim (item_name row) = [] then str ''red'' else name_borderColor row),
                 quantity_borderColor :=
                   (if isNaN (pf (item_quantity row)) \<or> le_zero (pf (item_quantity row))
                    then str ''red'' else quantity_borderColor row),
                 price_borderColor :=
                   (if isNaN (pf (item_price row)) \<or> lt_zero (pf (item_price row))
                    then str ''red'' else price_borderColor row)\<rparr>)
         (item_rows p)
   \<and> (if form_accepted pf (item_rows p) then True
       else generateReceipt pf outcome p =
         p\<lparr>item_rows := item_rows (generateReceipt pf outcome p),
           alerts := alerts p @
             [str ''Please fill in all item fields correctly. Product name, quantity (>0), and price (''
              @ [0x2265] @ str ''0) are required.'']\<rparr>)"
proof -
  have a: "posted (generateReceipt pf outcome p) =
     (if form_accepted pf (item_rows p)
      then posted p @ [build_receiptData p (map (item_of pf) (item_rows p))]
      else posted p)
   \<and> map row_values (item_rows (generateReceipt pf outcome p)) = map row_values (item_rows p)
   \<and> customerName (generateReceipt pf outcome p) = customerName p
   \<and> customerPIN (generateReceipt pf outcome p) = customerPIN p
   \<and> paymentMethod (generateReceipt pf outcome p) = paymentMethod p"
    by (simp add: generateReceipt_cases [of pf outcome p] validateForm_values split: submit_result.splits)
  have b: "if form_accepted pf (item_rows p) then True
       else generateReceipt pf outcome p =
         p\<lparr>item_rows := item_rows (generateReceipt pf outcome p),
           alerts := alerts p @
             [str ''Please fill in all item fields correctly. Product name, quantity (>0), and price (''
              @ [0x2265] @ str ''0) are required.'']\<rparr>"
    by (simp add: generateReceipt_cases [of pf outcome p])
  note c = generateReceipt_item_rows [of pf outcome p, unfolded validateForm_borders]
  from a c b show ?thesis by (intro conjI) (elim conjE, assumption)+
qed

theorem generateReceipt_posts_only_accepted_witness:
  "form_accepted sample_parseFloat (item_rows (sample_page [tea_row]))
   \<and> posted (generateReceipt sample_parseFloat (Created []) (sample_page [tea_row]))
       = [\<lparr>customer_name = str ''Walk-in Customer'', customer_pin = str ''A001'',
           payment_method = str ''Cash'',
           items = [\<lparr>name = str ''Tea'', quantity = Finite 2, price = Finite (21 / 2)\<rparr>]\<rparr>]
   \<and> \<not> form_accepted sample_parseFloat (item_rows (sample_page [unnamed_row]))
   \<and> posted (generateReceipt sample_parseFloat (Created []) (sample_page [unnamed_row])) = []
   \<and> map row_values (item_rows (generateReceipt sample_parseFloat (Created []) (sample_page [unnamed_row])))
       = [([], str ''2'', str ''10.50'')]
   \<and> item_rows (generateReceipt sample_parseFloat (Created []) (sample_page [unnamed_row]))
       = [unnamed_row\<lparr>name_borderColor := str ''red''\<rparr>]"
proof -
  have a: "form_accepted sample_parseFloat (item_rows (sample_page [tea_row]))"
    using sample_tea_accepted by simp
  have b: "\<not> form_accepted sample_parseFloat (item_rows (sample_page [unnamed_row]))"
    by (simp add: form_accepted_def trim_def)
  have c: "build_receiptData (sample_page [tea_row]) (map (item_of sample_parseFloat) [tea_row])
      = \<lparr>customer_name = str ''Walk-in Customer'', customer_pin = str ''A001'',
           payment_method = str ''Cash'',
           items = [\<lparr>name = str ''Tea'', quantity = Finite 2, price = Finite (21 / 2)\<rparr>]\<rparr>"
    by (simp add: build_receiptData_def sample_tea_item)
  have d: "posted (generateReceipt sample_parseFloat (Created []) (sample_page [tea_row]))
       = [\<lparr>customer_name = str ''Walk-in Customer'', customer_pin = str ''A001'',
           payment_method = str ''Cash'',
           items = [\<lparr>name = str ''Tea'', quantity = Finite 2, price = Finite (21 / 2)\<rparr>]\<rparr>]"
    using generateReceipt_posts_only_accepted [of sample_parseFloat "Created []" "sample_page [tea_row]"]
      a c by simp
  note t = generateReceipt_posts_only_accepted
      [of sample_parseFloat "Created []" "sample_page [unnamed_row]"]
  have e: "posted (generateReceipt sample_parseFloat (Created []) (sample_page [unnamed_row])) = []
     \<and> map row_values (item_rows (generateReceipt sample_parseFloat (Created []) (sample_page [unnamed_row])))
       = [([], str ''2'', str ''10.50'')]"
    using t b by (simp add: validateForm_values row_values_def)
  from t have "item_rows (generateReceipt sample_parseFloat (Created []) (sample_page [unnamed_row])) =
       map (\<lambda>row.
         if trim (item_name row) \<noteq> []
            \<and> \<not> isNaN (sample_parseFloat (item_quantity row)) \<and> \<not> le_zero (sample_parseFloat (item_quantity row))
            \<and> \<not> isNaN (sample_parseFloat (item_price row)) \<and> \<not> lt_zero (sample_parseFloat (item_price row))
         then row\<lparr>name_borderColor := [], quantity_borderColor := [], price_borderColor := []\<rparr>
         else row\<lparr>name_borderColor :=
                   (if trim (item_name row) = [] then str ''red'' else name_borderColor row),
                 quantity_borderColor :=
                   (if isNaN (sample_parseFloat (item_quantity row)) \<or> le_zero (sample_parseFloat (item_quantity row))
                    then str ''red'' else quantity_borderColor row),
                 price_borderColor :=
                   (if isNaN (sample_parseFloat (item_price row)) \<or> lt_zero (sample_parseFloat (item_price row))
                    then str ''red'' else price_borderColor row)\<rparr>)
         (item_rows (sample_page [unnamed_row]))"
    by (elim conjE)
  then have f: "item_rows (generateReceipt sample_parseFloat (Created []) (sample_page [unnamed_row]))
       = [unnamed_row\<lparr>name_borderColor := str ''red''\<rparr>]"
    by (simp add: trim_def str_def)
  from a b d e f show ?thesis by blast
qed

text \<open>
  C9, as stated, fails for the items: the name of an item is the trimmed value of its
  input, and quantity and price are the numbers parsed from theirs. A row named
  \<open>" Tea "\<close> is submitted as \<open>"Tea"\<close>.
\<close>

theorem generateReceipt_trims_name_counterexample:
  "map item_name (item_rows (sample_page [tea_row])) = [str '' Tea '']
   \<and> map item_quantity (item_rows (sample_page [tea_row])) = [str ''2'']
   \<and> posted (generateReceipt sample_parseFloat (Created []) (sample_page [tea_row]))
       = [\<lparr>customer_name = str ''Walk-in Customer'', customer_pin = str ''A001'',
           payment_method = str ''Cash'',
           items = [\<lparr>name = str ''Tea'', quantity = Finite 2, price = Finite (21 / 2)\<rparr>]\<rparr>]
   \<and> str ''Tea'' \<noteq> str '' Tea ''"
  by (simp add: generateReceipt_def validateForm_def validate_row_def build_receiptData_def
      Let_def showReceipt_def trim_def str_def is_white_space_def)

text \<open>
  C9, amended. In both copies of the script, the payload of a submission has
  \<open>customer_name\<close> equal to \<open>Walk-in Customer\<close> when the customer name field is empty
  and to the value of the field otherwise; \<open>customer_pin\<close> and \<open>payment_method\<close> are
  the values of their fields; and \<open>items\<close> holds, for each row in order, the trimmed
  name and the numbers that \<open>parseFloat\<close> gives for the quantity and the price.
\<close>

theorem generateReceipt_payload:
  "(posted (generateReceipt pf outcome p) \<noteq> posted p \<longrightarrow>
      posted (generateReceipt pf outcome p) = posted p @
        [\<lparr>customer_name = (if customerName p = [] then str ''Walk-in Customer'' else customerName p),
          customer_pin = customerPIN p,
          payment_method = paymentMethod p,
          items = map (\<lambda>row. \<lparr>name = trim (item_name row),
                                quantity = pf (item_quantity row),
                                price = pf (item_price row)\<rparr>) (item_rows p)\<rparr>])
   \<and> (posted (generateReceipt_part_000 pf outcome p) \<noteq> posted p \<longrightarrow>
      posted (generateReceipt_part_000 pf outcome p) = posted p @
        [\<lparr>customer_name = (if customerName p = [] then str ''Walk-in Customer'' else customerName p),
          customer_pin = customerPIN p,
          payment_method = paymentMethod p,
          items = map (\<lambda>row. \<lparr>name = trim (item_name row),
                                quantity = pf (item_quantity row),
                                price = pf (item_price row)\<rparr>) (item_rows p)\<rparr>])"
proof -
  have i: "map (item_of pf) (item_rows p) =
      map (\<lambda>row. \<lparr>name = trim (item_name row), quantity = pf (item_quantity row),
                    price = pf (item_price row)\<rparr>) (item_rows p)"
    by (simp add: item_of_def)
  have a: "posted (generateReceipt pf outcome p) =
     (if form_accepted pf (item_rows p)
      then posted p @ [build_receiptData p (map (item_of pf) (item_rows p))] else posted p)"
    by (simp add: generateReceipt_cases [of pf outcome p] split: submit_result.splits)
  have b: "posted (generateReceipt_part_000 pf outcome p) =
     (if form_accepted pf (item_rows p)
      then posted p @ [build_receiptData p (map (item_of pf) (item_rows p))] else posted p)"
    by (simp add: generateReceipt_part_000_cases [of pf outcome p] split: submit_result.splits)
  show ?thesis
    unfolding a b i build_receiptData_def by simp
qed

theorem generateReceipt_payload_witness:
  "posted (generateReceipt sample_parseFloat (Created []) (sample_page [tea_row]))
       \<noteq> posted (sample_page [tea_row])
   \<and> posted (generateReceipt_part_000 sample_parseFloat (Created []) (sample_page [tea_row]))
       \<noteq> posted (sample_page [tea_row])
   \<and> posted (generateReceipt sample_parseFloat (Created []) (sample_page [tea_row]))
       = [\<lparr>customer_name = str ''Walk-in Customer'', customer_pin = str ''A001'',
           payment_method = str ''Cash'',
           items = [\<lparr>name = trim (str '' Tea ''), quantity = Finite 2, price = Finite (21 / 2)\<rparr>]\<rparr>]
   \<and> posted (generateReceipt_part_000 sample_parseFloat (Created []) (sample_page [tea_row]))
       = [\<lparr>customer_name = str ''Walk-in Customer'', customer_pin = str ''A001'',
           payment_method = str ''Cash'',
           items = [\<lparr>name = trim (str '' Tea ''), quantity = Finite 2, price = Finite (21 / 2)\<rparr>]\<rparr>]"
proof -
  have a: "posted (generateReceipt sample_parseFloat (Created []) (sample_page [tea_row]))
       \<noteq> posted (sample_page [tea_row])"
    by (simp add: generateReceipt_def validateForm_def validate_row_def build_receiptData_def
      Let_def showReceipt_def trim_def str_def is_white_space_def)
  have b: "posted (generateReceipt_part_000 sample_parseFloat (Created []) (sample_page [tea_row]))
       \<noteq> posted (sample_page [tea_row])"
    by (simp add: generateReceipt_part_000_def build_receiptData_def
      Let_def showReceipt_def trim_def str_def is_white_space_def)
  show ?thesis
    using a b generateReceipt_payload [of sample_parseFloat "Created []" "sample_page [tea_row]"]
    by (simp add: str_def)
qed

text \<open>
  C6, as stated, fails: nothing in the receipt form calls \<open>storeReceiptOffline\<close>. A
  valid form is submitted and the request is rejected: the user gets an alert with the
  message of the error, the queue of the offline manager stays empty, nothing is stored
  and no offline indicator is shown.
\<close>

theorem generateReceipt_discards_on_failure_counterexample:
  "posted (generateReceipt sample_parseFloat (Failed (str ''Failed to fetch'')) (sample_page [tea_row]))
       = [\<lparr>customer_name = str ''Walk-in Customer'', customer_pin = str ''A001'',
           payment_method = str ''Cash'',
           items = [\<lparr>name = str ''Tea'', quantity = Finite 2, price = Finite (21 / 2)\<rparr>]\<rparr>]
   \<and> alerts (generateReceipt sample_parseFloat (Failed (str ''Failed to fetch'')) (sample_page [tea_row]))
       = [str ''Error generating receipt: Failed to fetch'']
   \<and> pendingReceipts (offlineManager
        (generateReceipt sample_parseFloat (Failed (str ''Failed to fetch'')) (sample_page [tea_row]))) = []
   \<and> localStorage (offlineManager
        (generateReceipt sample_parseFloat (Failed (str ''Failed to fetch'')) (sample_page [tea_row])))
          ''pendingReceipts'' = None
   \<and> offline_indicators (offlineManager
        (generateReceipt sample_parseFloat (Failed (str ''Failed to fetch'')) (sample_page [tea_row]))) = 0"
  by (simp add: generateReceipt_def validateForm_def validate_row_def build_receiptData_def
      Let_def alert_def trim_def str_def is_white_space_def)

text \<open>
  C6, amended. \<open>generateReceipt\<close>, in both copies of the script, leaves the offline
  manager, its queue and the storage as they are, whatever the outcome of the request.
  When the request of an accepted form fails, the page shows the alert
  \<open>Error generating receipt:\<close> followed by the message of the error, the button is
  reset, and the receipt is kept nowhere.
\<close>

theorem generateReceipt_failure_alerts:
  "offlineManager (generateReceipt pf outcome p) = offlineManager p
   \<and> offlineManager (generateReceipt_part_000 pf outcome p) = offlineManager p
   \<and> (form_accepted pf (item_rows p) \<longrightarrow>
        generateReceipt pf (Failed message) p =
          p\<lparr>item_rows := snd (snd (validateForm pf (item_rows p))),
            posted := posted p @ [build_receiptData p (map (item_of pf) (item_rows p))],
            alerts := alerts p @ [str ''Error generating receipt: '' @ message],
            button_innerHTML := str ''Generate ETR Receipt'', button_disabled := False\<rparr>
        \<and> generateReceipt_part_000 pf (Failed message) p =
          p\<lparr>posted := posted p @ [build_receiptData p (map (item_of pf) (item_rows p))],
            alerts := alerts p @ [str ''Error generating receipt: '' @ message]\<rparr>)"
  by (simp add: generateReceipt_cases [of pf _ p] generateReceipt_part_000_cases [of pf _ p]
      split: submit_result.splits)

theorem generateReceipt_failure_alerts_witness:
  "form_accepted sample_parseFloat (item_rows (sample_page [tea_row]))
   \<and> alerts (generateReceipt sample_parseFloat (Failed (str ''Failed to fetch'')) (sample_page [tea_row]))
       = [str ''Error generating receipt: '' @ str ''Failed to fetch'']
   \<and> offlineManager (generateReceipt sample_parseFloat (Failed (str ''Failed to fetch'')) (sample_page [tea_row]))
       = fresh"
proof -
  have a: "form_accepted sample_parseFloat (item_rows (sample_page [tea_row]))"
    using sample_tea_accepted by simp
  show ?thesis
    using a generateReceipt_failure_alerts
      [of sample_parseFloat "Failed (str ''Failed to fetch'')" "sample_page [tea_row]" "str ''Failed to fetch''"]
    by simp
qed

end
